theory Spec2Isabelle
  imports Main "HOL-Library.Word" "HOL-Library.Monad_Syntax"
begin

unbundle bit_operations_syntax

section \<open>Machine types and constants of mk2.c\<close>

text \<open>
  The driver is built for a 64-bit kernel: \<open>size_t\<close> is a 64-bit word, \<open>unsigned\<close> and
  \<open>int\<close> are 32 bits wide, a \<open>char\<close> is one byte. Word arithmetic wraps around as the C
  arithmetic on unsigned types does.
\<close>

type_synonym byte = "8 word"
type_synonym size_t = "64 word"
type_synonym unsigned = "32 word"

definition USB_MK2_MAX_OUT_LEN :: size_t where
  "USB_MK2_MAX_OUT_LEN = 407"

definition WRITES_IN_FLIGHT :: nat where
  "WRITES_IN_FLIGHT = 8"

definition MK2_SYSEX_PACKET_SIZE :: "'a::len word" where
  "MK2_SYSEX_PACKET_SIZE = 3"

definition MK2_STUFFED_PACKET_SIZE :: "'a::len word" where
  "MK2_STUFFED_PACKET_SIZE = 4"

definition MK2_SYSEX_SIZE_ROUND_UP :: "'a::len word" where
  "MK2_SYSEX_SIZE_ROUND_UP = 2"

definition MK2_SYSEX_MOREDATA :: byte where
  "MK2_SYSEX_MOREDATA = 0x04"

definition MK2_SYSEX_DATAEND1 :: byte where
  "MK2_SYSEX_DATAEND1 = 0x05"

definition MK2_SYSEX_DATAEND2 :: byte where
  "MK2_SYSEX_DATAEND2 = 0x06"

definition MK2_SYSEX_DATAEND3 :: byte where
  "MK2_SYSEX_DATAEND3 = 0x07"

definition MK2_SYSEX_BUTTON :: byte where
  "MK2_SYSEX_BUTTON = 0x09"

definition MK2_SYSEX_SBUTTON :: byte where
  "MK2_SYSEX_SBUTTON = 0x0b"

lemmas mk2_consts =
  USB_MK2_MAX_OUT_LEN_def MK2_SYSEX_PACKET_SIZE_def MK2_STUFFED_PACKET_SIZE_def
  MK2_SYSEX_SIZE_ROUND_UP_def MK2_SYSEX_MOREDATA_def MK2_SYSEX_DATAEND1_def
  MK2_SYSEX_DATAEND2_def MK2_SYSEX_DATAEND3_def MK2_SYSEX_BUTTON_def
  MK2_SYSEX_SBUTTON_def

text \<open>
  The error numbers come from the kernel's \<open>errno.h\<close> headers, which the driver includes;
  the values are those of the generic headers (x86, ARM). Only their being distinct and
  positive matters below.
\<close>

definition ENOENT :: int where "ENOENT = 2"
definition EIO :: int where "EIO = 5"
definition EAGAIN :: int where "EAGAIN = 11"
definition ENOMEM :: int where "ENOMEM = 12"
definition EFAULT :: int where "EFAULT = 14"
definition ENODEV :: int where "ENODEV = 19"
definition EINVAL :: int where "EINVAL = 22"
definition EPIPE :: int where "EPIPE = 32"
definition ECONNRESET :: int where "ECONNRESET = 104"
definition ESHUTDOWN :: int where "ESHUTDOWN = 108"
definition ERESTARTSYS :: int where "ERESTARTSYS = 512"

lemmas errno_defs =
  ENOENT_def EIO_def EAGAIN_def ENOMEM_def EFAULT_def ENODEV_def EINVAL_def EPIPE_def
  ECONNRESET_def ESHUTDOWN_def ERESTARTSYS_def

section \<open>Frame codec: size computation\<close>

text \<open>
  \<open>compute_stuffed_size\<close>, statement by statement: add the round-up, divide by the
  payload bytes of one packet, multiply by the stuffed width of one packet.
\<close>

definition compute_stuffed_size :: "size_t \<Rightarrow> size_t" where
  "compute_stuffed_size payload_size =
     (let stuffed_size = payload_size + MK2_SYSEX_SIZE_ROUND_UP;
          stuffed_size = stuffed_size div MK2_SYSEX_PACKET_SIZE;
          stuffed_size = stuffed_size * MK2_STUFFED_PACKET_SIZE
      in stuffed_size)"

section \<open>Frame codec: stuffing\<close>

text \<open>
  A kernel buffer is the list of its bytes; its length is the size of the allocation.
  An access outside the allocation is undefined behaviour in C: the model makes it the
  value \<open>None\<close>.
\<close>

definition store :: "byte list \<Rightarrow> size_t \<Rightarrow> byte \<Rightarrow> byte list option" where
  "store buf i v = (if unat i < length buf then Some (buf[unat i := v]) else None)"

definition load :: "byte list \<Rightarrow> size_t \<Rightarrow> byte option" where
  "load buf i = (if unat i < length buf then Some (buf ! unat i) else None)"

text \<open>The body of the \<open>while (blk > 0)\<close> loop of \<open>stuff_buffer\<close>: one full packet.\<close>

definition stuff_packet :: "byte list \<Rightarrow> byte list \<Rightarrow> size_t \<Rightarrow> size_t \<Rightarrow> byte list option" where
  "stuff_packet buf user_buffer oi ii =
     do {
       buf \<leftarrow> store buf (oi + 0) MK2_SYSEX_MOREDATA;
       u0 \<leftarrow> load user_buffer (ii + 0);
       buf \<leftarrow> store buf (oi + 1) u0;
       u1 \<leftarrow> load user_buffer (ii + 1);
       buf \<leftarrow> store buf (oi + 2) u1;
       u2 \<leftarrow> load user_buffer (ii + 2);
       store buf (oi + 3) u2
     }"

function stuff_loop ::
  "byte list \<Rightarrow> byte list \<Rightarrow> size_t \<Rightarrow> size_t \<Rightarrow> size_t \<Rightarrow> (byte list \<times> size_t \<times> size_t) option"
where
  "stuff_loop buf user_buffer blk oi ii =
     (if blk > 0 then
        (case stuff_packet buf user_buffer oi ii of
           None \<Rightarrow> None
         | Some buf' \<Rightarrow> stuff_loop buf' user_buffer (blk - 1) (oi + 4) (ii + 3))
      else Some (buf, oi, ii))"
  by pat_completeness auto
termination
  by (relation "measure (\<lambda>(buf, user_buffer, blk, oi, ii). unat blk)")
     (auto simp: unat_minus_one word_greater_zero_iff unat_gt_0)

declare stuff_loop.simps [simp del]

text \<open>
  \<open>stuff_buffer\<close>: \<open>buf\<close> is the transfer buffer (its initial bytes are whatever the
  allocator left there), \<open>user_buffer\<close> the kernel copy of the caller's payload. The
  parameter \<open>stuffed_size\<close> is only used by the hex dump at the end, which has no effect on
  the buffer. The result is the buffer after the call.
\<close>

definition stuff_buffer :: "byte list \<Rightarrow> size_t \<Rightarrow> byte list \<Rightarrow> size_t \<Rightarrow> byte list option" where
  "stuff_buffer buf stuffed_size user_buffer count =
     (let blk = count div 3;
          rem = count mod 3
      in case stuff_loop buf user_buffer blk 0 0 of
           None \<Rightarrow> None
         | Some (buf, oi, ii) \<Rightarrow>
             if rem = 0 then
               store buf (oi - 4) MK2_SYSEX_DATAEND3
             else if rem = 1 then
               do {
                 buf \<leftarrow> store buf (oi + 0) MK2_SYSEX_DATAEND1;
                 u0 \<leftarrow> load user_buffer (ii + 0);
                 buf \<leftarrow> store buf (oi + 1) u0;
                 buf \<leftarrow> store buf (oi + 2) 0;
                 store buf (oi + 3) 0
               }
             else if rem = 2 then
               do {
                 buf \<leftarrow> store buf (oi + 0) MK2_SYSEX_DATAEND2;
                 u0 \<leftarrow> load user_buffer (ii + 0);
                 buf \<leftarrow> store buf (oi + 1) u0;
                 u1 \<leftarrow> load user_buffer (ii + 1);
                 buf \<leftarrow> store buf (oi + 2) u1;
                 store buf (oi + 3) 0
               }
             else Some buf)"

section \<open>Frame codec: destuffing\<close>

text \<open>
  \<open>struct mk2_read_buffer\<close>. The field \<open>size\<close> of the source is \<open>bufsize\<close> here; \<open>data\<close> has
  as many bytes as were allocated.
\<close>

record mk2_read_buffer =
  data :: "byte list"
  bufsize :: size_t
  filled :: size_t
  copied :: size_t

text \<open>
  The decoder's accesses to \<open>read_buffer->data\<close> are recorded, so that statements about
  what it reads can be made: the status byte of a packet, and the block that
  \<open>copy_to_user\<close> reads (first index and length).
\<close>

datatype access = StatusRead nat | PayloadRead nat nat

fun access_indices :: "access \<Rightarrow> nat set" where
  "access_indices (StatusRead i) = {i}"
| "access_indices (PayloadRead i n) = {i ..< i + n}"

text \<open>
  The locals of \<open>parse_buffered_data\<close>. \<open>parse_retval\<close> is its \<open>retval\<close>, an \<open>int\<close> to which an \<open>unsigned\<close> is
  added: 32-bit arithmetic, read back as a signed value. \<open>user_out\<close> holds the bytes
  written to the caller's memory so far, so the pointer \<open>user_buffer\<close> is its length past
  the start.
\<close>

record parse_state =
  rb_index :: unsigned
  rem_size :: unsigned
  parse_retval :: "32 word"
  user_out :: "byte list"
  accesses :: "access list"

text \<open>The \<open>switch\<close> on the low nibble of the status byte; \<open>None\<close> is its \<open>default\<close> case.\<close>

definition batch_size_of :: "byte \<Rightarrow> unsigned option" where
  "batch_size_of status =
     (let nibble = status AND 0x0f in
      if nibble = MK2_SYSEX_MOREDATA \<or> nibble = MK2_SYSEX_BUTTON \<or> nibble = MK2_SYSEX_SBUTTON
        then Some 3
      else if nibble = MK2_SYSEX_DATAEND1 then Some 1
      else if nibble = MK2_SYSEX_DATAEND2 then Some 2
      else if nibble = MK2_SYSEX_DATAEND3 then Some 0
      else None)"

datatype crash = BUG_ON | OutOfBounds | BadFree

datatype loop_exit = LoopEnd parse_state | Efault parse_state | Crashed crash

datatype step = Continue parse_state | Stop loop_exit

text \<open>
  One iteration of the \<open>while (rb_index < leftover)\<close> loop. \<open>user_writable\<close> is the number
  of bytes the caller's memory really has at \<open>user_buffer\<close>: \<open>copy_to_user\<close> of a block that
  does not fit there copies what fits and reports failure; a copy of no bytes succeeds.
\<close>

definition parse_packet :: "mk2_read_buffer \<Rightarrow> size_t \<Rightarrow> nat \<Rightarrow> parse_state \<Rightarrow> step" where
  "parse_packet read_buffer leftover user_writable s =
     (if length (data read_buffer) \<le> unat (rb_index s) then Stop (Crashed OutOfBounds)
      else
        let s = s\<lparr>accesses := accesses s @ [StatusRead (unat (rb_index s))]\<rparr> in
        case batch_size_of (data read_buffer ! unat (rb_index s)) of
          None \<Rightarrow> Stop (Efault s)
        | Some batch_size \<Rightarrow>
            if rem_size s < batch_size then Stop (LoopEnd s)
            else if ucast (rb_index s + MK2_STUFFED_PACKET_SIZE) > leftover then Stop (Efault s)
            else
              let src = unat (copied read_buffer + ucast (rb_index s) + 1);
                  n = unat batch_size
              in
                if n = 0 then
                  Continue (s\<lparr>rb_index := rb_index s + MK2_STUFFED_PACKET_SIZE\<rparr>)
                else if length (data read_buffer) < src + n then Stop (Crashed OutOfBounds)
                else
                  let block = take n (drop src (data read_buffer));
                      s = s\<lparr>accesses := accesses s @ [PayloadRead src n]\<rparr>
                  in
                    if user_writable < length (user_out s) + n then
                      Stop (Efault (s\<lparr>user_out :=
                        user_out s @ take (user_writable - length (user_out s)) block\<rparr>))
                    else
                      Continue (s\<lparr>parse_retval := parse_retval s + batch_size,
                                  rb_index := rb_index s + MK2_STUFFED_PACKET_SIZE,
                                  user_out := user_out s @ block,
                                  rem_size := rem_size s - batch_size\<rparr>))"

text \<open>
  The loop. It is a partial function: with four gigabytes of buffered packets that carry
  no payload, the 32-bit \<open>rb_index\<close> wraps around and the loop never ends; \<open>None\<close> is that
  case.
\<close>

partial_function (option) parse_loop ::
  "mk2_read_buffer \<Rightarrow> size_t \<Rightarrow> nat \<Rightarrow> parse_state \<Rightarrow> loop_exit option"
where
  "parse_loop read_buffer leftover user_writable s =
     (if ucast (rb_index s) < leftover then
        (case parse_packet read_buffer leftover user_writable s of
           Continue s' \<Rightarrow> parse_loop read_buffer leftover user_writable s'
         | Stop e \<Rightarrow> Some e)
      else Some (LoopEnd s))"

text \<open>
  What a call of \<open>parse_buffered_data\<close> that returns leaves behind: the returned \<open>int\<close>,
  the read buffer, the bytes written to the caller's memory, and the accesses made.
\<close>

record parse_return =
  ret :: int
  buffer_after :: mk2_read_buffer
  delivered :: "byte list"
  reads :: "access list"

definition parse_buffered_data ::
  "mk2_read_buffer \<Rightarrow> nat \<Rightarrow> size_t \<Rightarrow> (crash + parse_return) option"
where
  "parse_buffered_data read_buffer user_writable user_size =
     (let leftover = filled read_buffer - copied read_buffer;
          s0 = \<lparr>rb_index = 0, rem_size = ucast user_size, parse_retval = 0,
                user_out = [], accesses = []\<rparr>
      in
        if user_size = 0 then Some (Inl BUG_ON)
        else if leftover = 0 then Some (Inl BUG_ON)
        else
          case parse_loop read_buffer leftover user_writable s0 of
            None \<Rightarrow> None
          | Some (Crashed c) \<Rightarrow> Some (Inl c)
          | Some (Efault s) \<Rightarrow>
              Some (Inr \<lparr>ret = - EFAULT, buffer_after = read_buffer,
                         delivered = user_out s, reads = accesses s\<rparr>)
          | Some (LoopEnd s) \<Rightarrow>
              Some (Inr \<lparr>ret = sint (parse_retval s),
                         buffer_after =
                           read_buffer\<lparr>copied := copied read_buffer + ucast (rb_index s)\<rparr>,
                         delivered = user_out s, reads = accesses s\<rparr>))"

section \<open>The device and its two endpoints\<close>

text \<open>
  The structures of the driver, with the fields that carry its behaviour. The mutexes and
  spinlocks only serialise the callers and are not fields of the model, which runs one
  call at a time; the semaphore \<open>limit_sem\<close> is its count. The sticky error slots of the
  two endpoints are both called \<open>errors\<close> in the source.
\<close>

record mk2_read_endp =
  buffer :: mk2_read_buffer
  read_errors :: int
  requested_read :: bool

record mk2_write_endp =
  limit_sem :: nat
  write_errors :: int

record mk2_state =
  disconnected :: bool

text \<open>
  What the driver asks of the kernel is recorded in \<open>kernel_log\<close>, in order: taking and
  releasing a slot of the semaphore, submitting a transfer (the write transfers with the
  frame they carry, every one with what \<open>usb_submit_urb\<close> returned), freeing a transfer
  buffer, and the \<open>dev_err\<close> lines.
\<close>

datatype kernel_call =
    SemDown
  | SemUp
  | SubmitWrite "byte list" int
  | SubmitRead int
  | FreeCoherent
  | DevErr

record mk2dev =
  read_endp :: mk2_read_endp
  write_endp :: mk2_write_endp
  state :: mk2_state
  kernel_log :: "kernel_call list"

fun is_submit :: "kernel_call \<Rightarrow> bool" where
  "is_submit (SubmitWrite frame r) = True"
| "is_submit (SubmitRead r) = True"
| "is_submit c = False"

definition submissions :: "mk2dev \<Rightarrow> kernel_call list" where
  "submissions dev = filter is_submit (kernel_log dev)"

definition log_call :: "kernel_call \<Rightarrow> mk2dev \<Rightarrow> mk2dev" where
  "log_call c dev = dev\<lparr>kernel_log := kernel_log dev @ [c]\<rparr>"

text \<open>How a call ends: it returns, it crashes the kernel, or it never returns.\<close>

datatype 'a outcome = Returns 'a | Crashes crash | Hangs

text \<open>
  The device as \<open>mk2_probe\<close> leaves it when it succeeds: a zeroed structure, a read buffer
  of the endpoint's packet size, \<open>WRITES_IN_FLIGHT\<close> free slots.
\<close>

definition mk2_probe :: "size_t \<Rightarrow> mk2dev" where
  "mk2_probe maxp =
     \<lparr>read_endp =
        \<lparr>buffer = \<lparr>data = replicate (unat maxp) 0, bufsize = maxp, filled = 0, copied = 0\<rparr>,
         read_errors = 0, requested_read = False\<rparr>,
      write_endp = \<lparr>limit_sem = WRITES_IN_FLIGHT, write_errors = 0\<rparr>,
      state = \<lparr>disconnected = False\<rparr>,
      kernel_log = []\<rparr>"

section \<open>Write channel\<close>

text \<open>\<open>up(&endpoint->limit_sem)\<close>.\<close>

definition up :: "mk2dev \<Rightarrow> mk2dev" where
  "up dev =
     log_call SemUp
       (dev\<lparr>write_endp := (write_endp dev)\<lparr>limit_sem := limit_sem (write_endp dev) + 1\<rparr>\<rparr>)"

text \<open>
  \<open>mk2_write_bulk_callback\<close>, for a transfer that completed with \<open>urb->status = status\<close>.
\<close>

definition mk2_write_bulk_callback :: "mk2dev \<Rightarrow> int \<Rightarrow> mk2dev" where
  "mk2_write_bulk_callback dev status =
     (let dev =
        (if status \<noteq> 0 then
           let dev = (if \<not> (status = - ENOENT \<or> status = - ECONNRESET \<or> status = - ESHUTDOWN)
                      then log_call DevErr dev else dev)
           in dev\<lparr>write_endp := (write_endp dev)\<lparr>write_errors := status\<rparr>\<rparr>
         else dev);
          dev = log_call FreeCoherent dev
      in up dev)"

text \<open>
  What the kernel decides during one call of \<open>mk2_write\<close>: the caller's \<open>O_NONBLOCK\<close>
  flag; how a sleep in \<open>down_interruptible\<close> ends (\<open>None\<close>: it does not end; \<open>Some 0\<close>:
  another holder released a slot, which this caller got; another value: a signal); whether
  the allocations succeed; whether \<open>access_ok\<close> accepts the caller's address range; what
  \<open>usb_submit_urb\<close> returns.
\<close>

record write_env =
  w_nonblock :: bool
  down_sleep :: "int option"
  alloc_urb_ok :: bool
  alloc_coherent_ok :: bool
  access_ok :: bool
  kmalloc_ok :: bool
  w_submit_ret :: int

text \<open>
  Taking a slot: \<open>down_interruptible\<close> for a blocking caller, \<open>down_trylock\<close> otherwise.
  The result is what the call returns (0 when the slot was taken) and the device after it.
\<close>

definition down_interruptible :: "mk2dev \<Rightarrow> write_env \<Rightarrow> (int \<times> mk2dev) option" where
  "down_interruptible dev env =
     (if 0 < limit_sem (write_endp dev) then
        Some (0, log_call SemDown
          (dev\<lparr>write_endp := (write_endp dev)\<lparr>limit_sem := limit_sem (write_endp dev) - 1\<rparr>\<rparr>))
      else
        case down_sleep env of
          None \<Rightarrow> None
        | Some r \<Rightarrow> if r = 0 then Some (0, log_call SemDown dev) else Some (r, dev))"

definition down_trylock :: "mk2dev \<Rightarrow> int \<times> mk2dev" where
  "down_trylock dev =
     (if 0 < limit_sem (write_endp dev) then
        (0, log_call SemDown
          (dev\<lparr>write_endp := (write_endp dev)\<lparr>limit_sem := limit_sem (write_endp dev) - 1\<rparr>\<rparr>))
      else (1, dev))"

text \<open>
  \<open>memdup_user\<close>: the kernel copy of the first \<open>count\<close> bytes of the caller's memory,
  \<open>-ENOMEM\<close> when the allocation fails, \<open>-EFAULT\<close> when the caller's memory is shorter.
\<close>

definition memdup_user :: "write_env \<Rightarrow> byte list \<Rightarrow> size_t \<Rightarrow> int + byte list" where
  "memdup_user env user_memory count =
     (if \<not> kmalloc_ok env then Inl (- ENOMEM)
      else if length user_memory < unat count then Inl (- EFAULT)
      else Inr (take (unat count) user_memory))"

text \<open>
  The labels \<open>error:\<close> and \<open>exit:\<close> of \<open>mk2_write\<close>. \<open>urb\<close> and \<open>buf\<close> say whether the two
  pointers are set; \<open>usb_free_coherent\<close> of a null buffer does nothing.
\<close>

definition write_error :: "mk2dev \<Rightarrow> bool \<Rightarrow> bool \<Rightarrow> int \<Rightarrow> (int \<times> mk2dev) outcome" where
  "write_error dev urb buf retval =
     (let dev = (if urb \<and> buf then log_call FreeCoherent dev else dev)
      in Returns (retval, up dev))"

text \<open>
  \<open>mk2_write\<close> from the sticky error check on, with the slot held. \<open>count\<close> is the
  truncated count. The transfer buffer comes zeroed from \<open>usb_alloc_coherent\<close>. When
  \<open>memdup_user\<close> fails, the \<open>error:\<close> label passes the error pointer to \<open>kfree\<close>, which is
  not a pointer \<open>kfree\<close> accepts: the model makes that a crash.
\<close>

definition mk2_write_slot_held ::
  "mk2dev \<Rightarrow> write_env \<Rightarrow> byte list \<Rightarrow> size_t \<Rightarrow> size_t \<Rightarrow> (int \<times> mk2dev) outcome"
where
  "mk2_write_slot_held dev env user_memory count stuffed_size =
     (let retval = write_errors (write_endp dev);
          dev = (if retval < 0
                 then dev\<lparr>write_endp := (write_endp dev)\<lparr>write_errors := 0\<rparr>\<rparr>
                 else dev);
          retval = (if retval < 0
                    then (if retval = - EPIPE then retval else - EIO)
                    else retval)
      in
        if retval < 0 then write_error dev False False retval
        else if \<not> alloc_urb_ok env then write_error dev False False (- ENOMEM)
        else if \<not> alloc_coherent_ok env then write_error dev True False (- ENOMEM)
        else
          let buf = replicate (unat stuffed_size) (0 :: byte) in
          if \<not> access_ok env then write_error dev True True (- EINVAL)
          else
            (case memdup_user env user_memory count of
               Inl e \<Rightarrow> Crashes BadFree
             | Inr user_buffer \<Rightarrow>
                 (case stuff_buffer buf stuffed_size user_buffer count of
                    None \<Rightarrow> Crashes OutOfBounds
                  | Some buf \<Rightarrow>
                      if disconnected (state dev) then write_error dev True True (- ENODEV)
                      else
                        let retval = w_submit_ret env;
                            dev = log_call (SubmitWrite buf retval) dev
                        in
                          if retval \<noteq> 0 then
                            write_error (log_call DevErr dev) True True retval
                          else Returns (int (unat count), dev))))"

text \<open>
  \<open>mk2_write\<close>. \<open>user_memory\<close> is what can be read at \<open>user_buffer_\<close>. A call that does not
  get its slot returns without touching the device.
\<close>

definition mk2_write :: "mk2dev \<Rightarrow> write_env \<Rightarrow> byte list \<Rightarrow> size_t \<Rightarrow> (int \<times> mk2dev) outcome" where
  "mk2_write dev env user_memory count =
     (if count = 0 then Returns (0, dev)
      else
        let count = min count USB_MK2_MAX_OUT_LEN;
            stuffed_size = compute_stuffed_size count;
            acquired =
              (if \<not> w_nonblock env then
                 (case down_interruptible dev env of
                    None \<Rightarrow> None
                  | Some (r, dev) \<Rightarrow> Some (if r \<noteq> 0 then Inl (- ERESTARTSYS) else Inr dev))
               else
                 (case down_trylock dev of
                    (r, dev) \<Rightarrow> Some (if r \<noteq> 0 then Inl (- EAGAIN) else Inr dev)))
        in
          case acquired of
            None \<Rightarrow> Hangs
          | Some (Inl retval) \<Rightarrow> Returns (retval, dev)
          | Some (Inr dev) \<Rightarrow> mk2_write_slot_held dev env user_memory count stuffed_size)"

section \<open>Read channel\<close>

text \<open>
  \<open>mk2_read_bulk_callback\<close>, for a read transfer that completed with \<open>urb->status =
  status\<close> and \<open>urb->actual_length = actual_length\<close>, after the device wrote \<open>received\<close>
  to the start of the buffer.
\<close>

definition receive :: "byte list \<Rightarrow> byte list \<Rightarrow> byte list" where
  "receive old received = take (length old) (received @ drop (length received) old)"

definition mk2_read_bulk_callback :: "mk2dev \<Rightarrow> int \<Rightarrow> unsigned \<Rightarrow> byte list \<Rightarrow> mk2dev" where
  "mk2_read_bulk_callback dev status actual_length received =
     (let ep = read_endp dev;
          ep = ep\<lparr>buffer := (buffer ep)\<lparr>data := receive (data (buffer ep)) received\<rparr>\<rparr>;
          dev = dev\<lparr>read_endp := ep\<rparr>;
          dev =
            (if status \<noteq> 0 then
               let dev = (if \<not> (status = - ENOENT \<or> status = - ECONNRESET \<or> status = - ESHUTDOWN)
                          then log_call DevErr dev else dev)
               in dev\<lparr>read_endp := (read_endp dev)\<lparr>read_errors := status\<rparr>\<rparr>
             else
               dev\<lparr>read_endp := (read_endp dev)
                 \<lparr>buffer := (buffer (read_endp dev))\<lparr>filled := ucast actual_length\<rparr>\<rparr>\<rparr>)
      in dev\<lparr>read_endp := (read_endp dev)\<lparr>requested_read := False\<rparr>\<rparr>)"

text \<open>
  \<open>mk2_request_read\<close>; \<open>submit_ret\<close> is what \<open>usb_submit_urb\<close> returns. The parameter
  \<open>count\<close> of the source is only printed.
\<close>

definition mk2_request_read :: "mk2dev \<Rightarrow> size_t \<Rightarrow> int \<Rightarrow> int \<times> mk2dev" where
  "mk2_request_read dev count submit_ret =
     (let ep = read_endp dev;
          ep = ep\<lparr>requested_read := True\<rparr>;
          ep = ep\<lparr>buffer := (buffer ep)\<lparr>filled := 0\<rparr>\<rparr>;
          ep = ep\<lparr>buffer := (buffer ep)\<lparr>copied := 0\<rparr>\<rparr>;
          dev = log_call (SubmitRead submit_ret) (dev\<lparr>read_endp := ep\<rparr>);
          retval = submit_ret
      in
        if retval < 0 then
          let dev = log_call DevErr dev;
              retval = (if retval = - ENOMEM then retval else - EIO);
              dev = dev\<lparr>read_endp := (read_endp dev)\<lparr>requested_read := False\<rparr>\<rparr>
          in (retval, dev)
        else (retval, dev))"

text \<open>
  What the kernel decides during one call of \<open>mk2_read\<close>: the caller's \<open>O_NONBLOCK\<close>
  flag, what \<open>mutex_lock_interruptible\<close> returns, and what the \<open>k\<close>-th \<open>usb_submit_urb\<close>
  of the call returns. How the sleeps in \<open>wait_event_interruptible\<close> end is a list, one
  entry for each sleep of the call: a signal, or the completion of the outstanding
  transfer, whose callback then runs. A sleep past the end of the list does not end.
\<close>

record read_env =
  r_nonblock :: bool
  lock_ret :: int
  r_submit_ret :: "nat \<Rightarrow> int"

datatype wait_event = Signal | Completion int unsigned "byte list"

text \<open>What a read call returns: the value, the device, the bytes written to the caller.\<close>

type_synonym read_return = "int \<times> mk2dev \<times> byte list"

text \<open>
  The part of \<open>mk2_read\<close> from the label \<open>retry:\<close> on. \<open>k\<close> counts the transfers the call
  has submitted. The comparison \<open>retval < count\<close> is one of \<open>size_t\<close>: the \<open>int\<close> is
  converted first.
\<close>

function mk2_read_retry ::
  "read_env \<Rightarrow> nat \<Rightarrow> size_t \<Rightarrow> mk2dev \<Rightarrow> wait_event list \<Rightarrow> nat \<Rightarrow> read_return outcome"
where
  "mk2_read_retry env user_writable count dev waits k =
     (let waited =
        (if requested_read (read_endp dev) then
           if r_nonblock env then Some (Inl (- EAGAIN))
           else
             (case waits of
                [] \<Rightarrow> None
              | Signal # waits \<Rightarrow> Some (Inl (- ERESTARTSYS))
              | Completion status actual_length received # waits \<Rightarrow>
                  Some (Inr (mk2_read_bulk_callback dev status actual_length received, waits)))
         else Some (Inr (dev, waits)))
      in
        case waited of
          None \<Rightarrow> Hangs
        | Some (Inl retval) \<Rightarrow> Returns (retval, dev, [])
        | Some (Inr (dev, waits)) \<Rightarrow>
            let retval = read_errors (read_endp dev) in
            if retval < 0 then
              Returns (if retval = - EPIPE then retval else - EIO,
                       dev\<lparr>read_endp := (read_endp dev)\<lparr>read_errors := 0\<rparr>\<rparr>, [])
            else
              let leftover = filled (buffer (read_endp dev)) - copied (buffer (read_endp dev)) in
              if leftover \<noteq> 0 then
                (case parse_buffered_data (buffer (read_endp dev)) user_writable count of
                   None \<Rightarrow> Hangs
                 | Some (Inl c) \<Rightarrow> Crashes c
                 | Some (Inr r) \<Rightarrow>
                     let dev = dev\<lparr>read_endp := (read_endp dev)\<lparr>buffer := buffer_after r\<rparr>\<rparr>;
                         retval = ret r;
                         dev = (if (word_of_int retval :: size_t) < count
                                then snd (mk2_request_read dev
                                       (compute_stuffed_size (count - word_of_int retval))
                                       (r_submit_ret env k))
                                else dev)
                     in Returns (retval, dev, delivered r))
              else
                (case mk2_request_read dev count (r_submit_ret env k) of
                   (retval, dev) \<Rightarrow>
                     if retval < 0 then Returns (retval, dev, [])
                     else mk2_read_retry env user_writable count dev waits (k + 1)))"
  by pat_completeness auto

lemma mk2_request_read_requested:
  "mk2_request_read dev count r = (rv, dev') \<Longrightarrow> \<not> rv < 0 \<Longrightarrow> requested_read (read_endp dev')"
  by (auto simp: mk2_request_read_def Let_def log_call_def errno_defs split: if_splits)

termination mk2_read_retry
proof (relation "measure (\<lambda>(env, uw, count, dev, waits, k).
          2 * length waits + (if requested_read (read_endp dev) then 0 else 1))", goal_cases)
  case 1
  show ?case by simp
next
  case (2 env user_writable count dev waits k waited x2 b x y retval leftover x1 x2')
  then show ?case
    by (auto dest!: mk2_request_read_requested [OF sym] split: if_splits list.splits wait_event.splits)
qed

declare mk2_read_retry.simps [simp del]

definition mk2_read ::
  "mk2dev \<Rightarrow> read_env \<Rightarrow> wait_event list \<Rightarrow> nat \<Rightarrow> size_t \<Rightarrow> read_return outcome"
where
  "mk2_read dev env waits user_writable count =
     (if count < MK2_SYSEX_PACKET_SIZE then Returns (- EINVAL, dev, [])
      else
        let retval = lock_ret env in
        if retval < 0 then Returns (retval, dev, [])
        else if disconnected (state dev) then Returns (- ENODEV, dev, [])
        else mk2_read_retry env user_writable count dev waits 0)"

text \<open>\<open>mk2_disconnect\<close>, as far as the two channels see it: the flag is set.\<close>

definition mk2_disconnect :: "mk2dev \<Rightarrow> mk2dev" where
  "mk2_disconnect dev = dev\<lparr>state := (state dev)\<lparr>disconnected := True\<rparr>\<rparr>"

section \<open>Notions used in the proofs\<close>

text \<open>
  What the loop of \<open>stuff_buffer\<close> leaves in the buffer: \<open>n\<close> packets from offset \<open>oi\<close>,
  each a \<open>MOREDATA\<close> status byte and three payload bytes read from offset \<open>ii\<close> on.
\<close>

definition packets_at :: "byte list \<Rightarrow> nat \<Rightarrow> byte list \<Rightarrow> nat \<Rightarrow> nat \<Rightarrow> bool" where
  "packets_at out oi ub ii n \<longleftrightarrow>
     (\<forall>j<n. out ! (oi + 4 * j) = MK2_SYSEX_MOREDATA \<and>
             out ! (oi + 4 * j + 1) = ub ! (ii + 3 * j) \<and>
             out ! (oi + 4 * j + 2) = ub ! (ii + 3 * j + 1) \<and>
             out ! (oi + 4 * j + 3) = ub ! (ii + 3 * j + 2))"

text \<open>
  The decoder's loop invariant: the remaining capacity and the delivered bytes add up to
  the capacity \<open>U\<close>, every access so far was below \<open>filled\<close>, and every packet examined so
  far had a recognised status and lay within the leftover, and \<open>rb_index\<close> is a
  multiple of 4 within the leftover. \<open>decoder_post\<close> is what holds when the loop is left.
\<close>

definition reads_within :: "mk2_read_buffer \<Rightarrow> access list \<Rightarrow> bool" where
  "reads_within rb as \<longleftrightarrow> (\<forall>a \<in> set as. access_indices a \<subseteq> {..< unat (filled rb)})"

definition decoder_inv :: "mk2_read_buffer \<Rightarrow> size_t \<Rightarrow> nat \<Rightarrow> parse_state \<Rightarrow> bool" where
  "decoder_inv rb leftover U s \<longleftrightarrow>
     unat (rem_size s) + length (user_out s) = U \<and>
     reads_within rb (accesses s) \<and>
     (\<forall>i. StatusRead i \<in> set (accesses s) \<longrightarrow>
        batch_size_of (data rb ! i) \<noteq> None \<and> i + 4 \<le> unat leftover) \<and>
     4 dvd unat (rb_index s) \<and> unat (rb_index s) \<le> unat leftover"

fun decoder_post :: "mk2_read_buffer \<Rightarrow> size_t \<Rightarrow> nat \<Rightarrow> loop_exit \<Rightarrow> bool" where
  "decoder_post rb leftover U (Crashed c) = False"
| "decoder_post rb leftover U (Efault t) = reads_within rb (accesses t)"
| "decoder_post rb leftover U (LoopEnd t) =
     (reads_within rb (accesses t) \<and>
      (\<forall>i. StatusRead i \<in> set (accesses t) \<longrightarrow>
         (\<exists>b. batch_size_of (data rb ! i) = Some b \<and>
              (unat leftover < i + 4 \<longrightarrow> U < length (user_out t) + unat b))) \<and>
      4 dvd unat (rb_index t) \<and> unat (rb_index t) \<le> unat leftover)"

text \<open>
  A write call gets a slot when one is free, or when it may sleep and another holder
  releases one. \<open>slot_taken\<close> is the device once the slot is taken.
\<close>

definition takes_slot :: "mk2dev \<Rightarrow> write_env \<Rightarrow> bool" where
  "takes_slot dev env \<longleftrightarrow>
     0 < limit_sem (write_endp dev) \<or> (\<not> w_nonblock env \<and> down_sleep env = Some 0)"

definition slot_taken :: "mk2dev \<Rightarrow> mk2dev" where
  "slot_taken dev =
     log_call SemDown
       (dev\<lparr>write_endp := (write_endp dev)\<lparr>limit_sem := limit_sem (write_endp dev) - 1\<rparr>\<rparr>)"

text \<open>Nothing on the way to the submission fails, and the submission succeeds.\<close>

definition nothing_fails :: "mk2dev \<Rightarrow> write_env \<Rightarrow> byte list \<Rightarrow> size_t \<Rightarrow> bool" where
  "nothing_fails dev env user_memory count \<longleftrightarrow>
     takes_slot dev env \<and> 0 \<le> write_errors (write_endp dev) \<and>
     alloc_urb_ok env \<and> alloc_coherent_ok env \<and> access_ok env \<and> kmalloc_ok env \<and>
     unat (min count USB_MK2_MAX_OUT_LEN) \<le> length user_memory \<and>
     \<not> disconnected (state dev) \<and> w_submit_ret env = 0"

text \<open>The frame a write call builds for the first \<open>count\<close> bytes of the caller's memory.\<close>

definition frame_of :: "byte list \<Rightarrow> size_t \<Rightarrow> byte list option" where
  "frame_of user_memory count =
     stuff_buffer (replicate (unat (compute_stuffed_size count)) 0) (compute_stuffed_size count)
       (take (unat count) user_memory) count"

text \<open>An environment of a write call in which nothing fails.\<close>

definition write_env_ok :: write_env where
  "write_env_ok =
     \<lparr>w_nonblock = False, down_sleep = None, alloc_urb_ok = True, alloc_coherent_ok = True,
      access_ok = True, kmalloc_ok = True, w_submit_ret = 0\<rparr>"

text \<open>An environment of a read call in which nothing fails.\<close>

definition read_env_ok :: read_env where
  "read_env_ok = \<lparr>r_nonblock = False, lock_ret = 0, r_submit_ret = (\<lambda>k. 0)\<rparr>"

text \<open>A device whose read buffer was just filled with \<open>received\<close> by a completed transfer.\<close>

definition dev_with_frame :: "byte list \<Rightarrow> mk2dev" where
  "dev_with_frame received =
     mk2_read_bulk_callback (mk2_probe (word_of_nat (length received))) 0
       (word_of_nat (length received)) received"

text \<open>
  The bytes of the read buffer from \<open>filled\<close> on are stale: an earlier transfer left them
  there, and the driver does not count them as buffered. \<open>with_data dev xs\<close> is the device
  with the bytes \<open>xs\<close> in the memory of its read buffer; \<open>agrees dev xs\<close> says that \<open>xs\<close> has
  the length of that memory and differs from it only from \<open>filled\<close> on.
\<close>

definition with_data :: "mk2dev \<Rightarrow> byte list \<Rightarrow> mk2dev" where
  "with_data dev xs =
     dev\<lparr>read_endp := (read_endp dev)\<lparr>buffer := (buffer (read_endp dev))\<lparr>data := xs\<rparr>\<rparr>\<rparr>"

definition agrees :: "mk2dev \<Rightarrow> byte list \<Rightarrow> bool" where
  "agrees dev xs \<longleftrightarrow>
     length xs = length (data (buffer (read_endp dev))) \<and>
     take (unat (filled (buffer (read_endp dev)))) xs =
       take (unat (filled (buffer (read_endp dev)))) (data (buffer (read_endp dev)))"

text \<open>
  The read buffer between two calls: \<open>copied\<close> is within \<open>filled\<close>, \<open>filled\<close> within the
  allocated bytes (fewer than 2 GiB), and \<open>copied\<close> is 0 while a transfer is in flight.
\<close>

definition buffer_sane :: "mk2dev \<Rightarrow> bool" where
  "buffer_sane dev \<longleftrightarrow>
     unat (copied (buffer (read_endp dev))) \<le> unat (filled (buffer (read_endp dev))) \<and>
     unat (filled (buffer (read_endp dev))) \<le> length (data (buffer (read_endp dev))) \<and>
     length (data (buffer (read_endp dev))) < 2 ^ 31 \<and>
     (requested_read (read_endp dev) \<longrightarrow> copied (buffer (read_endp dev)) = 0)"

text \<open>
  A completion reports no more bytes than the device wrote, and the device wrote no more
  than the \<open>n\<close> bytes of the buffer it was given.
\<close>

fun completion_ok :: "nat \<Rightarrow> wait_event \<Rightarrow> bool" where
  "completion_ok n Signal = True"
| "completion_ok n (Completion status actual_length received) =
     (unat actual_length \<le> length received \<and> length received \<le> n)"

text \<open>
  One pass through the label \<open>retry\<close> of \<open>mk2_read\<close>, cut in two: the wait for the transfer
  in flight, and what follows it, which either ends the call or goes back to the label.
  Lemma \<open>mk2_read_retry_round\<close> shows that \<open>mk2_read_retry\<close> is their iteration.
\<close>

definition read_wait ::
  "read_env \<Rightarrow> mk2dev \<Rightarrow> wait_event list \<Rightarrow> (int + mk2dev \<times> wait_event list) option"
where
  "read_wait env dev waits =
     (if requested_read (read_endp dev) then
        if r_nonblock env then Some (Inl (- EAGAIN))
        else
          (case waits of
             [] \<Rightarrow> None
           | Signal # waits \<Rightarrow> Some (Inl (- ERESTARTSYS))
           | Completion status actual_length received # waits \<Rightarrow>
               Some (Inr (mk2_read_bulk_callback dev status actual_length received, waits)))
      else Some (Inr (dev, waits)))"

definition read_drain ::
  "read_env \<Rightarrow> nat \<Rightarrow> size_t \<Rightarrow> mk2dev \<Rightarrow> nat \<Rightarrow> read_return outcome + mk2dev"
where
  "read_drain env user_writable count dev k =
     (let retval = read_errors (read_endp dev) in
      if retval < 0 then
        Inl (Returns (if retval = - EPIPE then retval else - EIO,
                      dev\<lparr>read_endp := (read_endp dev)\<lparr>read_errors := 0\<rparr>\<rparr>, []))
      else
        let leftover = filled (buffer (read_endp dev)) - copied (buffer (read_endp dev)) in
        if leftover \<noteq> 0 then
          (case parse_buffered_data (buffer (read_endp dev)) user_writable count of
             None \<Rightarrow> Inl Hangs
           | Some (Inl c) \<Rightarrow> Inl (Crashes c)
           | Some (Inr r) \<Rightarrow>
               let dev = dev\<lparr>read_endp := (read_endp dev)\<lparr>buffer := buffer_after r\<rparr>\<rparr>;
                   retval = ret r;
                   dev = (if (word_of_int retval :: size_t) < count
                          then snd (mk2_request_read dev
                                 (compute_stuffed_size (count - word_of_int retval))
                                 (r_submit_ret env k))
                          else dev)
               in Inl (Returns (retval, dev, delivered r)))
        else
          (case mk2_request_read dev count (r_submit_ret env k) of
             (retval, dev) \<Rightarrow>
               if retval < 0 then Inl (Returns (retval, dev, [])) else Inr dev))"

text \<open>
  Two runs of a read call, the second on the device with other stale bytes, end alike:
  the same crash, or the same returned value and delivered bytes, and devices that
  again differ in stale bytes only. \<open>redata\<close> puts other bytes into what the decoder
  leaves behind.
\<close>

definition redata :: "byte list \<Rightarrow> parse_return \<Rightarrow> parse_return" where
  "redata d2 r = r\<lparr>buffer_after := (buffer_after r)\<lparr>data := d2\<rparr>\<rparr>"

definition stale_free :: "nat \<Rightarrow> read_return outcome \<Rightarrow> read_return outcome \<Rightarrow> bool" where
  "stale_free n res res' \<longleftrightarrow>
     (case res of
        Returns (rv, d', out) \<Rightarrow>
          (\<exists>xs'. res' = Returns (rv, with_data d' xs', out) \<and> agrees d' xs') \<and>
          buffer_sane d' \<and> length (data (buffer (read_endp d'))) = n
      | Crashes c \<Rightarrow> res' = Crashes c
      | Hangs \<Rightarrow> res' = Hangs)"

text \<open>
  A sequence of read calls, each with its environment and the events it waits through.
  What is observed is what each call returns and delivers.
\<close>

type_synonym read_call = "read_env \<times> wait_event list \<times> nat \<times> size_t"

fun read_calls :: "mk2dev \<Rightarrow> read_call list \<Rightarrow> (int \<times> byte list) list outcome" where
  "read_calls dev [] = Returns []"
| "read_calls dev ((env, waits, user_writable, count) # calls) =
     (case mk2_read dev env waits user_writable count of
        Returns (retval, dev, out) \<Rightarrow>
          (case read_calls dev calls of
             Returns rest \<Rightarrow> Returns ((retval, out) # rest)
           | Crashes c \<Rightarrow> Crashes c
           | Hangs \<Rightarrow> Hangs)
      | Crashes c \<Rightarrow> Crashes c
      | Hangs \<Rightarrow> Hangs)"

section \<open>Evaluation\<close>

lemmas codec_eval =
  stuff_buffer_def stuff_loop.simps stuff_packet_def store_def load_def mk2_consts
  parse_buffered_data_def parse_loop.simps parse_packet_def batch_size_of_def Let_def

lemma replicate_numeral: "replicate (numeral k) x = x # replicate (pred_numeral k) x"
  by (simp add: numeral_eq_Suc)

lemmas dev_eval =
  replicate_numeral mk2_read_def mk2_read_retry.simps mk2_request_read_def
  mk2_read_bulk_callback_def log_call_def compute_stuffed_size_def receive_def
  errno_defs mk2_probe_def WRITES_IN_FLIGHT_def

section \<open>Properties of the size computation\<close>

lemma unat_plus_numerals:
  fixes x :: size_t
  shows "unat x + 1 < 2 ^ 64 \<Longrightarrow> unat (x + 1) = unat x + 1"
    and "unat x + 2 < 2 ^ 64 \<Longrightarrow> unat (x + 2) = unat x + 2"
    and "unat x + 3 < 2 ^ 64 \<Longrightarrow> unat (x + 3) = unat x + 3"
    and "unat x + 4 < 2 ^ 64 \<Longrightarrow> unat (x + 4) = unat x + 4"
  by (simp_all add: unat_word_ariths)

text \<open>
  As long as the 64-bit arithmetic does not wrap around, the size is the one the formula
  gives on natural numbers.
\<close>
lemma compute_stuffed_size_unat:
  assumes "unat L \<le> 2 ^ 62"
  shows "unat (compute_stuffed_size L) = (unat L + 2) div 3 * 4"
proof -
  have a: "unat (L + 2) = unat L + 2"
    using assms by (simp add: unat_word_ariths)
  have b: "unat ((L + 2) div 3) = (unat L + 2) div 3"
    by (simp add: unat_div a)
  have "(unat L + 2) div 3 * 4 < 2 ^ 64"
    using assms by simp
  then have "unat ((L + 2) div 3 * 4) = (unat L + 2) div 3 * 4"
    using b by (simp add: unat_word_ariths)
  then show ?thesis
    by (simp add: compute_stuffed_size_def mk2_consts)
qed

text \<open>
  Claim C2. For every payload length \<open>L\<close>, \<open>compute_stuffed_size L\<close> is
  \<open>((L + 2) / 3) * 4\<close> with the integer division of \<open>size_t\<close>, which for every length up
  to \<open>2 ^ 62\<close> is the value of that formula on the natural numbers; for the lengths 1 to 9
  it is 4, 4, 4, 8, 8, 8, 12, 12, 12.
\<close>

theorem compute_stuffed_size_formula:
  "compute_stuffed_size L = ((L + 2) div 3) * 4 \<and>
   (unat L \<le> 2 ^ 62 \<longrightarrow> unat (compute_stuffed_size L) = ((unat L + 2) div 3) * 4) \<and>
   map compute_stuffed_size [1, 2, 3, 4, 5, 6, 7, 8, 9] = [4, 4, 4, 8, 8, 8, 12, 12, 12]"
  using compute_stuffed_size_unat [of L]
  by (simp add: compute_stuffed_size_def mk2_consts)

theorem compute_stuffed_size_formula_witness:
  "unat (407 :: size_t) \<le> 2 ^ 62 \<and> unat (compute_stuffed_size 407) = 544 \<and>
   compute_stuffed_size 407 = ((407 + 2) div 3) * 4"
  using compute_stuffed_size_formula [of 407] by simp

section \<open>Properties of stuffing\<close>

lemma stuff_packet_Some:
  assumes "unat oi + 4 \<le> length buf" "length buf < 2 ^ 64"
    and "unat ii + 3 \<le> length ub" "length ub < 2 ^ 64"
  shows "stuff_packet buf ub oi ii =
    Some (buf[unat oi := MK2_SYSEX_MOREDATA, unat oi + 1 := ub ! unat ii,
              unat oi + 2 := ub ! (unat ii + 1), unat oi + 3 := ub ! (unat ii + 2)])"
  using assms
  by (simp add: stuff_packet_def store_def load_def unat_plus_numerals)

lemma stuff_loop_spec:
  assumes "unat blk = n" "unat oi + 4 * n \<le> length buf" "length buf < 2 ^ 64"
    and "unat ii + 3 * n \<le> length ub" "length ub < 2 ^ 64"
  shows "\<exists>out. stuff_loop buf ub blk oi ii = Some (out, oi + 4 * blk, ii + 3 * blk) \<and>
           length out = length buf \<and>
           packets_at out (unat oi) ub (unat ii) n \<and>
           (\<forall>i. i < unat oi \<or> unat oi + 4 * n \<le> i \<longrightarrow> out ! i = buf ! i)"
  using assms
proof (induction n arbitrary: blk buf oi ii)
  case 0
  then have "blk = 0" by (simp add: unat_eq_0)
  then show ?case
    by (simp add: stuff_loop.simps packets_at_def)
next
  case (Suc n)
  define buf1 where "buf1 = buf[unat oi := MK2_SYSEX_MOREDATA, unat oi + 1 := ub ! unat ii,
              unat oi + 2 := ub ! (unat ii + 1), unat oi + 3 := ub ! (unat ii + 2)]"
  have pos: "blk > 0" using Suc.prems(1) by (simp add: word_greater_zero_iff unat_gt_0 [symmetric])
  have nz: "blk \<noteq> 0" using Suc.prems(1) by auto
  have sp: "stuff_packet buf ub oi ii = Some buf1"
    unfolding buf1_def using Suc.prems by (intro stuff_packet_Some) simp_all
  have b1: "unat (blk - 1) = n"
    using Suc.prems(1) nz by (simp add: unat_minus_one)
  have o4: "unat (oi + 4) = unat oi + 4"
    using Suc.prems by (simp add: unat_plus_numerals)
  have i3: "unat (ii + 3) = unat ii + 3"
    using Suc.prems by (simp add: unat_plus_numerals)
  have len1: "length buf1 = length buf" by (simp add: buf1_def)
  from Suc.IH [of "blk - 1" "oi + 4" buf1 "ii + 3"]
  obtain out where out:
    "stuff_loop buf1 ub (blk - 1) (oi + 4) (ii + 3) = Some (out, oi + 4 + 4 * (blk - 1), ii + 3 + 3 * (blk - 1))"
    "length out = length buf1"
    "packets_at out (unat oi + 4) ub (unat ii + 3) n"
    "\<forall>i. i < unat oi + 4 \<or> unat oi + 4 + 4 * n \<le> i \<longrightarrow> out ! i = buf1 ! i"
    using Suc.prems b1 o4 i3 len1 by auto
  have first: "out ! (unat oi) = MK2_SYSEX_MOREDATA" "out ! (unat oi + 1) = ub ! unat ii"
    "out ! (unat oi + 2) = ub ! (unat ii + 1)" "out ! (unat oi + 3) = ub ! (unat ii + 2)"
    using out(4) Suc.prems(2) by (simp_all add: buf1_def)
  have pk: "packets_at out (unat oi) ub (unat ii) (Suc n)"
    unfolding packets_at_def
  proof (intro allI impI)
    fix j assume "j < Suc n"
    show "out ! (unat oi + 4 * j) = MK2_SYSEX_MOREDATA \<and>
             out ! (unat oi + 4 * j + 1) = ub ! (unat ii + 3 * j) \<and>
             out ! (unat oi + 4 * j + 2) = ub ! (unat ii + 3 * j + 1) \<and>
             out ! (unat oi + 4 * j + 3) = ub ! (unat ii + 3 * j + 2)"
    proof (cases j)
      case 0
      then show ?thesis using first by simp
    next
      case (Suc k)
      then have "k < n" using \<open>j < Suc n\<close> by simp
      then show ?thesis
        using out(3) Suc by (simp add: packets_at_def add.assoc add.commute add.left_commute)
    qed
  qed
  have rest: "\<forall>i. i < unat oi \<or> unat oi + 4 * Suc n \<le> i \<longrightarrow> out ! i = buf ! i"
    using out(4) by (auto simp: buf1_def)
  have "stuff_loop buf ub blk oi ii = Some (out, oi + 4 * blk, ii + 3 * blk)"
    using pos sp out(1) by (subst stuff_loop.simps) (simp add: algebra_simps)
  then show ?case
    using out(2) len1 pk rest by simp
qed

text \<open>
  What \<open>stuff_buffer\<close> writes, by the remainder of the payload length modulo 3.
\<close>

lemma stuff_buffer_rem0:
  assumes len: "length payload = unat count"
    and pos: "0 < unat count"
    and m3: "unat count mod 3 = 0"
    and small: "unat count \<le> 2 ^ 62"
    and alloc: "unat (compute_stuffed_size count) \<le> length buf" "length buf < 2 ^ 64"
  shows "\<exists>out. stuff_buffer buf (compute_stuffed_size count) payload count = Some out \<and>
           length out = length buf \<and>
           unat (compute_stuffed_size count) = 4 * (unat count div 3) \<and>
           (\<forall>j < unat count div 3.
              out ! (4 * j) =
                (if j + 1 = unat count div 3 then MK2_SYSEX_DATAEND3 else MK2_SYSEX_MOREDATA) \<and>
              out ! (4 * j + 1) = payload ! (3 * j) \<and>
              out ! (4 * j + 2) = payload ! (3 * j + 1) \<and>
              out ! (4 * j + 3) = payload ! (3 * j + 2)) \<and>
           drop (unat (compute_stuffed_size count)) out =
             drop (unat (compute_stuffed_size count)) buf"
proof -
  define n where "n = unat count div 3"
  have n3: "unat count = 3 * n" using m3 by (auto simp: n_def)
  have npos: "0 < n" using pos n3 by simp
  have css: "unat (compute_stuffed_size count) = 4 * n"
    using compute_stuffed_size_unat [OF small] n3 by simp
  have blk: "unat (count div 3) = n"
    by (simp add: unat_div n_def)
  have rem: "count mod 3 = 0"
    using m3 by (simp add: unat_eq_0 [symmetric] unat_mod)
  from stuff_loop_spec [of "count div 3" n 0 buf 0 payload]
  obtain mid where mid:
    "stuff_loop buf payload (count div 3) 0 0 = Some (mid, 4 * (count div 3), 3 * (count div 3))"
    "length mid = length buf"
    "packets_at mid 0 payload 0 n"
    "\<forall>i. 4 * n \<le> i \<longrightarrow> mid ! i = buf ! i"
    using blk alloc css len n3 by auto
  have "4 * n < 2 ^ 64" using alloc css by simp
  then have oi: "unat (4 * (count div 3)) = 4 * n"
    using blk by (simp add: unat_word_ariths)
  have le: "(4 :: size_t) \<le> 4 * (count div 3)"
    using oi npos by (simp add: word_le_nat_alt)
  have last: "unat (4 * (count div 3) - 4) = 4 * n - 4"
    using unat_sub [OF le] oi by simp
  define out where "out = mid[4 * n - 4 := MK2_SYSEX_DATAEND3]"
  have res: "stuff_buffer buf (compute_stuffed_size count) payload count = Some out"
    using mid(1,2) rem last alloc css npos
    by (simp add: stuff_buffer_def store_def out_def)
  have pk: "\<forall>j < n.
              out ! (4 * j) = (if j + 1 = n then MK2_SYSEX_DATAEND3 else MK2_SYSEX_MOREDATA) \<and>
              out ! (4 * j + 1) = payload ! (3 * j) \<and>
              out ! (4 * j + 2) = payload ! (3 * j + 1) \<and>
              out ! (4 * j + 3) = payload ! (3 * j + 2)"
  proof (intro allI impI)
    fix j assume j: "j < n"
    then have in_range: "4 * j + 3 < length mid"
      using mid(2) alloc css by simp
    have "4 * j + 1 \<noteq> 4 * n - 4" "4 * j + 2 \<noteq> 4 * n - 4" "4 * j + 3 \<noteq> 4 * n - 4"
      using j by presburger+
    moreover have "4 * n - 4 = 4 * j \<longleftrightarrow> j + 1 = n"
      using j by auto
    ultimately show "out ! (4 * j) = (if j + 1 = n then MK2_SYSEX_DATAEND3 else MK2_SYSEX_MOREDATA) \<and>
              out ! (4 * j + 1) = payload ! (3 * j) \<and>
              out ! (4 * j + 2) = payload ! (3 * j + 1) \<and>
              out ! (4 * j + 3) = payload ! (3 * j + 2)"
      using mid(3) j in_range by (simp add: out_def packets_at_def nth_list_update)
  qed
  have tail: "drop (4 * n) out = drop (4 * n) buf"
  proof (rule nth_equalityI)
    show "length (drop (4 * n) out) = length (drop (4 * n) buf)"
      by (simp add: out_def mid(2))
  next
    fix i assume "i < length (drop (4 * n) out)"
    then show "drop (4 * n) out ! i = drop (4 * n) buf ! i"
      using mid(4) mid(2) npos by (simp add: out_def nth_list_update)
  qed
  show ?thesis
    using res pk tail css mid(2) by (simp add: n_def [symmetric] out_def)
qed

lemma stuff_buffer_rem1:
  assumes len: "length payload = unat count"
    and m3: "unat count mod 3 = 1"
    and small: "unat count \<le> 2 ^ 62"
    and alloc: "unat (compute_stuffed_size count) \<le> length buf" "length buf < 2 ^ 64"
  shows "\<exists>out. stuff_buffer buf (compute_stuffed_size count) payload count = Some out \<and>
           length out = length buf \<and>
           unat (compute_stuffed_size count) = 4 * (unat count div 3) + 4 \<and>
           packets_at out 0 payload 0 (unat count div 3) \<and>
           out ! (4 * (unat count div 3)) = MK2_SYSEX_DATAEND1 \<and>
           out ! (4 * (unat count div 3) + 1) = payload ! (3 * (unat count div 3)) \<and>
           out ! (4 * (unat count div 3) + 2) = 0 \<and>
           out ! (4 * (unat count div 3) + 3) = 0"
proof -
  define n where "n = unat count div 3"
  have n3: "unat count = 3 * n + 1" using m3 unfolding n_def by presburger
  have css: "unat (compute_stuffed_size count) = 4 * n + 4"
    using compute_stuffed_size_unat [OF small] n3 by simp
  have blk: "unat (count div 3) = n"
    by (simp add: unat_div n_def)
  have "unat (count mod 3) = 1"
    using m3 by (simp add: unat_mod)
  then have rem: "count mod 3 = 1"
    by (metis unat_1 word_unat_eq_iff)
  from stuff_loop_spec [of "count div 3" n 0 buf 0 payload]
  obtain mid where mid:
    "stuff_loop buf payload (count div 3) 0 0 = Some (mid, 4 * (count div 3), 3 * (count div 3))"
    "length mid = length buf"
    "packets_at mid 0 payload 0 n"
    using blk alloc css len n3 by auto
  have "4 * n < 2 ^ 64" "3 * n < 2 ^ 64" using alloc css by simp_all
  then have oi: "unat (4 * (count div 3)) = 4 * n" and ii: "unat (3 * (count div 3)) = 3 * n"
    using blk by (simp_all add: unat_word_ariths)
  have bound: "4 * n + 4 \<le> length mid" "length mid < 2 ^ 64" "3 * n < length payload"
    using alloc css mid(2) len n3 by simp_all
  define out where "out = mid[4 * n := MK2_SYSEX_DATAEND1, 4 * n + 1 := payload ! (3 * n),
     4 * n + 2 := 0, 4 * n + 3 := 0]"
  have res: "stuff_buffer buf (compute_stuffed_size count) payload count = Some out"
    using mid(1) rem oi ii bound
    by (simp add: stuff_buffer_def store_def load_def out_def unat_plus_numerals)
  have pk: "packets_at out 0 payload 0 n"
    using mid(3) by (simp add: packets_at_def out_def)
  show ?thesis
    using res pk css mid(2) bound by (simp add: n_def [symmetric] out_def)
qed

lemma stuff_buffer_rem2:
  assumes len: "length payload = unat count"
    and m3: "unat count mod 3 = 2"
    and small: "unat count \<le> 2 ^ 62"
    and alloc: "unat (compute_stuffed_size count) \<le> length buf" "length buf < 2 ^ 64"
  shows "\<exists>out. stuff_buffer buf (compute_stuffed_size count) payload count = Some out \<and>
           length out = length buf \<and>
           unat (compute_stuffed_size count) = 4 * (unat count div 3) + 4 \<and>
           packets_at out 0 payload 0 (unat count div 3) \<and>
           out ! (4 * (unat count div 3)) = MK2_SYSEX_DATAEND2 \<and>
           out ! (4 * (unat count div 3) + 1) = payload ! (3 * (unat count div 3)) \<and>
           out ! (4 * (unat count div 3) + 2) = payload ! (3 * (unat count div 3) + 1) \<and>
           out ! (4 * (unat count div 3) + 3) = 0"
proof -
  define n where "n = unat count div 3"
  have n3: "unat count = 3 * n + 2" using m3 unfolding n_def by presburger
  have css: "unat (compute_stuffed_size count) = 4 * n + 4"
    using compute_stuffed_size_unat [OF small] n3 by simp
  have blk: "unat (count div 3) = n"
    by (simp add: unat_div n_def)
  have "unat (count mod 3) = unat (2 :: size_t)"
    using m3 by (simp add: unat_mod)
  then have rem: "count mod 3 = 2"
    by (simp only: word_unat_eq_iff)
  from stuff_loop_spec [of "count div 3" n 0 buf 0 payload]
  obtain mid where mid:
    "stuff_loop buf payload (count div 3) 0 0 = Some (mid, 4 * (count div 3), 3 * (count div 3))"
    "length mid = length buf"
    "packets_at mid 0 payload 0 n"
    using blk alloc css len n3 by auto
  have "4 * n < 2 ^ 64" "3 * n < 2 ^ 64" using alloc css by simp_all
  then have oi: "unat (4 * (count div 3)) = 4 * n" and ii: "unat (3 * (count div 3)) = 3 * n"
    using blk by (simp_all add: unat_word_ariths)
  have bound: "4 * n + 4 \<le> length mid" "length mid < 2 ^ 64" "3 * n + 1 < length payload"
    "length payload < 2 ^ 64"
    using alloc css mid(2) len n3 small by simp_all
  define out where "out = mid[4 * n := MK2_SYSEX_DATAEND2, 4 * n + 1 := payload ! (3 * n),
     4 * n + 2 := payload ! (3 * n + 1), 4 * n + 3 := 0]"
  have res: "stuff_buffer buf (compute_stuffed_size count) payload count = Some out"
    using mid(1) rem oi ii bound
    by (simp add: stuff_buffer_def store_def load_def out_def unat_plus_numerals)
  have pk: "packets_at out 0 payload 0 n"
    using mid(3) by (simp add: packets_at_def out_def)
  show ?thesis
    using res pk css mid(2) bound by (simp add: n_def [symmetric] out_def)
qed

lemma stuff_buffer_total:
  assumes len: "length payload = unat count"
    and pos: "0 < unat count"
    and small: "unat count \<le> 2 ^ 62"
    and alloc: "unat (compute_stuffed_size count) \<le> length buf" "length buf < 2 ^ 64"
  shows "\<exists>out. stuff_buffer buf (compute_stuffed_size count) payload count = Some out \<and>
           length out = length buf"
proof -
  consider "unat count mod 3 = 0" | "unat count mod 3 = 1" | "unat count mod 3 = 2"
    by linarith
  then show ?thesis
  proof cases
    case 1
    from stuff_buffer_rem0 [OF len pos 1 small alloc] show ?thesis by blast
  next
    case 2
    from stuff_buffer_rem1 [OF len 2 small alloc] show ?thesis by blast
  next
    case 3
    from stuff_buffer_rem2 [OF len 3 small alloc] show ?thesis by blast
  qed
qed

text \<open>
  Claim C3. For a payload whose length \<open>L\<close> is a nonzero multiple of 3, written into a
  buffer of at least \<open>compute_stuffed_size L\<close> bytes, \<open>stuff_buffer\<close> produces \<open>L / 3\<close>
  packets of 4 bytes: the status byte of the last one is \<open>DATAEND3\<close>, that of every earlier
  one is \<open>MOREDATA\<close>, each carries its three payload bytes, and nothing is written past
  the first \<open>compute_stuffed_size L\<close> bytes (no trailing packet).
\<close>

theorem stuff_buffer_multiple_of_3:
  assumes len: "length payload = unat count"
    and pos: "0 < unat count"
    and m3: "unat count mod 3 = 0"
    and small: "unat count \<le> 2 ^ 62"
    and alloc: "unat (compute_stuffed_size count) \<le> length buf" "length buf < 2 ^ 64"
  shows "\<exists>out. stuff_buffer buf (compute_stuffed_size count) payload count = Some out \<and>
           length out = length buf \<and>
           unat (compute_stuffed_size count) = 4 * (unat count div 3) \<and>
           (\<forall>j < unat count div 3.
              out ! (4 * j) =
                (if j + 1 = unat count div 3 then MK2_SYSEX_DATAEND3 else MK2_SYSEX_MOREDATA) \<and>
              out ! (4 * j + 1) = payload ! (3 * j) \<and>
              out ! (4 * j + 2) = payload ! (3 * j + 1) \<and>
              out ! (4 * j + 3) = payload ! (3 * j + 2)) \<and>
           drop (unat (compute_stuffed_size count)) out =
             drop (unat (compute_stuffed_size count)) buf"
  using assms by (rule stuff_buffer_rem0)

theorem stuff_buffer_multiple_of_3_witness:
  "\<exists>out. stuff_buffer [0, 0, 0, 0, 0, 0, 0, 0] (compute_stuffed_size 6) [1, 2, 3, 4, 5, 6] 6 = Some out \<and>
     length out = 8 \<and> out ! 0 = MK2_SYSEX_MOREDATA \<and> out ! 4 = MK2_SYSEX_DATAEND3"
proof -
  have css: "unat (compute_stuffed_size 6) = 8"
    by (simp add: compute_stuffed_size_def mk2_consts)
  from stuff_buffer_multiple_of_3 [of "[1, 2, 3, 4, 5, 6]" 6 "[0, 0, 0, 0, 0, 0, 0, 0]"]
  obtain out where out:
    "stuff_buffer [0, 0, 0, 0, 0, 0, 0, 0] (compute_stuffed_size 6) [1, 2, 3, 4, 5, 6] 6 = Some out"
    "length out = 8"
    "\<forall>j < 2. out ! (4 * j) = (if j + 1 = 2 then MK2_SYSEX_DATAEND3 else MK2_SYSEX_MOREDATA)"
    using css by auto
  have first: "out ! 0 = MK2_SYSEX_MOREDATA"
    using out(3) [rule_format, of 0] by simp
  have last: "out ! 4 = MK2_SYSEX_DATAEND3"
    using out(3) [rule_format, of 1] by simp
  show ?thesis
    using out(1,2) first last by simp
qed

section \<open>Properties of destuffing\<close>

lemma batch_size_of_le: "batch_size_of st = Some b \<Longrightarrow> unat b \<le> 3"
  by (auto simp: batch_size_of_def Let_def split: if_splits)

lemma unat_ucast_index:
  fixes i :: unsigned
  shows "unat (ucast i :: size_t) = unat i"
proof -
  have "unat i < 2 ^ 64"
    using unsigned_less [of i, where 'a = nat] by simp
  then show ?thesis
    by (simp add: unsigned_ucast_eq take_bit_nat_eq_self)
qed

lemma ucast_index_less:
  fixes i :: unsigned and l :: size_t
  shows "ucast i < l \<longleftrightarrow> unat i < unat l"
  by (simp add: word_less_nat_alt unat_ucast_index)

lemma index_plus4:
  fixes i :: unsigned
  assumes "unat i + 4 < 2 ^ 32"
  shows "unat (i + 4) = unat i + 4"
  using assms by (simp add: unat_word_ariths)

lemma boundary_check:
  fixes i :: unsigned and l :: size_t
  assumes "unat i + 4 < 2 ^ 32"
  shows "l < ucast (i + MK2_STUFFED_PACKET_SIZE) \<longleftrightarrow> unat l < unat i + 4"
  using assms by (simp add: word_less_nat_alt unat_ucast_index index_plus4 mk2_consts)

lemma source_index:
  fixes i :: unsigned and c :: size_t
  assumes "unat c + unat i + 1 < 2 ^ 64"
  shows "unat (c + ucast i + 1) = unat c + unat i + 1"
proof -
  have "unat (ucast i :: size_t) = unat i"
    by (simp add: unat_ucast_index)
  then show ?thesis
    using assms by (simp add: unat_word_ariths)
qed

lemma reads_within_snoc:
  "reads_within rb (as @ [a]) \<longleftrightarrow> reads_within rb as \<and> access_indices a \<subseteq> {..< unat (filled rb)}"
  by (auto simp: reads_within_def)

lemma parse_loop_total:
  assumes geom: "unat (copied rb) + unat leftover = unat (filled rb)"
      "unat (filled rb) \<le> length (data rb)" "unat (filled rb) < 2 ^ 31"
    and inv: "decoder_inv rb leftover U s"
  shows "\<exists>e. parse_loop rb leftover uw s = Some e \<and> decoder_post rb leftover U e"
  using inv
proof (induction "unat leftover - unat (rb_index s)" arbitrary: s rule: less_induct)
  case less
  define i where "i = unat (rb_index s)"
  note inv = less.prems
  have I1: "unat (rem_size s) + length (user_out s) = U"
    and I2: "reads_within rb (accesses s)"
    and I3: "\<And>k. StatusRead k \<in> set (accesses s) \<Longrightarrow>
        batch_size_of (data rb ! k) \<noteq> None \<and> k + 4 \<le> unat leftover"
    and I4: "4 dvd i" "i \<le> unat leftover"
    using inv by (auto simp: decoder_inv_def i_def)
  show ?case
  proof (cases "i < unat leftover")
    case False
    then have "parse_loop rb leftover uw s = Some (LoopEnd s)"
      by (subst parse_loop.simps) (simp add: ucast_index_less i_def)
    moreover have "decoder_post rb leftover U (LoopEnd s)"
      using I2 I3 I4 by (fastforce simp: i_def)
    ultimately show ?thesis by blast
  next
    case True
    then have cond: "ucast (rb_index s) < leftover"
      by (simp add: ucast_index_less i_def)
    have small: "i + 4 < 2 ^ 32"
      using True geom by simp
    have inb: "\<not> length (data rb) \<le> unat (rb_index s)"
      using True geom by (simp add: i_def)
    have bnd: "leftover < ucast (rb_index s + MK2_STUFFED_PACKET_SIZE) \<longleftrightarrow> unat leftover < i + 4"
      using small by (simp add: boundary_check i_def)
    define srci where "srci = unat (copied rb) + i + 1"
    have src: "unat (copied rb + ucast (rb_index s) + 1) = srci"
      using True geom by (simp add: source_index i_def srci_def)
    have next_index: "unat (rb_index s + MK2_STUFFED_PACKET_SIZE) = i + 4"
      using small by (simp add: index_plus4 i_def mk2_consts)
    define s1 where "s1 = s\<lparr>accesses := accesses s @ [StatusRead i]\<rparr>"
    have rw1: "reads_within rb (accesses s1)"
      using I2 True geom by (simp add: s1_def reads_within_snoc)
    show ?thesis
    proof (cases "batch_size_of (data rb ! i)")
      case None
      then have "parse_loop rb leftover uw s = Some (Efault s1)"
        using cond inb by (subst parse_loop.simps) (simp add: parse_packet_def i_def s1_def)
      then show ?thesis using rw1 by simp
    next
      case (Some b)
      have b3: "unat b \<le> 3" using Some by (rule batch_size_of_le)
      show ?thesis
      proof (cases "rem_size s < b")
        case True
        then have "parse_loop rb leftover uw s = Some (LoopEnd s1)"
          using cond inb Some
          by (subst parse_loop.simps) (simp add: parse_packet_def i_def s1_def)
        moreover have "decoder_post rb leftover U (LoopEnd s1)"
        proof -
          have "\<exists>b'. batch_size_of (data rb ! k) = Some b' \<and>
                  (unat leftover < k + 4 \<longrightarrow> U < length (user_out s1) + unat b')"
            if k: "StatusRead k \<in> set (accesses s1)" for k
          proof (cases "k = i")
            case True
            have "unat (rem_size s) < unat b"
              using \<open>rem_size s < b\<close> by (simp add: word_less_nat_alt)
            then show ?thesis
              using True Some I1 by (auto simp: s1_def)
          next
            case False
            then have "StatusRead k \<in> set (accesses s)"
              using k by (simp add: s1_def)
            from I3 [OF this] show ?thesis by auto
          qed
          then show ?thesis using rw1 I4 by (simp add: s1_def i_def)
        qed
        ultimately show ?thesis by blast
      next
        case fits: False
        show ?thesis
        proof (cases "unat leftover < i + 4")
          case True
          then have "parse_loop rb leftover uw s = Some (Efault s1)"
            using cond inb Some fits bnd
            by (subst parse_loop.simps) (simp add: parse_packet_def i_def s1_def)
          then show ?thesis using rw1 by simp
        next
          case inside: False
          have sub: "unat (rem_size s - b) = unat (rem_size s) - unat b"
            using fits by (simp add: unat_sub word_le_nat_alt word_less_nat_alt not_less)
          have ble: "unat b \<le> unat (rem_size s)"
            using fits by (simp add: word_le_nat_alt word_less_nat_alt not_less)
          show ?thesis
          proof (cases "unat b = 0")
            case True
            define s2 where "s2 = s1\<lparr>rb_index := rb_index s + MK2_STUFFED_PACKET_SIZE\<rparr>"
            have step: "parse_loop rb leftover uw s = parse_loop rb leftover uw s2"
              using cond inb Some fits bnd inside True
              by (subst parse_loop.simps) (simp add: parse_packet_def i_def s1_def s2_def)
            have inv2: "decoder_inv rb leftover U s2"
              using I1 rw1 I3 I4 Some inside next_index
              by (auto simp: decoder_inv_def s2_def s1_def)
            have "unat leftover - unat (rb_index s2) < unat leftover - unat (rb_index s)"
              using next_index inside \<open>i < unat leftover\<close> by (simp add: s2_def i_def)
            from less.hyps [OF this inv2] step show ?thesis by simp
          next
            case False
            define n where "n = unat b"
            have room: "\<not> length (data rb) < srci + n"
              using inside geom b3 by (simp add: srci_def n_def)
            define s2 where "s2 = s1\<lparr>accesses := accesses s1 @ [PayloadRead srci n]\<rparr>"
            have rw2: "reads_within rb (accesses s2)"
              using rw1 inside geom b3 by (auto simp: s2_def reads_within_snoc srci_def n_def)
            show ?thesis
            proof (cases "uw < length (user_out s) + n")
              case True
              define s3 where "s3 = s2\<lparr>user_out := user_out s2 @
                take (uw - length (user_out s2)) (take n (drop srci (data rb)))\<rparr>"
              have "parse_loop rb leftover uw s = Some (Efault s3)"
                using cond inb Some fits bnd inside False src room True
                by (subst parse_loop.simps)
                   (simp add: parse_packet_def i_def [symmetric] Let_def s1_def s2_def s3_def n_def [symmetric])
              then show ?thesis using rw2 by (simp add: s3_def)
            next
              case ok: False
              define s3 where "s3 = s2\<lparr>parse_retval := parse_retval s2 + b,
                                  rb_index := rb_index s + MK2_STUFFED_PACKET_SIZE,
                                  user_out := user_out s2 @ take n (drop srci (data rb)),
                                  rem_size := rem_size s2 - b\<rparr>"
              have step: "parse_loop rb leftover uw s = parse_loop rb leftover uw s3"
                using cond inb Some fits bnd inside False src room ok
                by (subst parse_loop.simps)
                   (simp add: parse_packet_def i_def [symmetric] Let_def s1_def s2_def s3_def n_def [symmetric])
              have lenblock: "length (take n (drop srci (data rb))) = n"
                using room by simp
              have inv3: "decoder_inv rb leftover U s3"
                unfolding decoder_inv_def
              proof (intro conjI allI impI)
                show "unat (rem_size s3) + length (user_out s3) = U"
                  using I1 sub ble lenblock by (simp add: s3_def s2_def s1_def n_def)
                show "reads_within rb (accesses s3)"
                  using rw2 by (simp add: s3_def)
              next
                fix k assume "StatusRead k \<in> set (accesses s3)"
                then have "StatusRead k \<in> set (accesses s) \<or> k = i"
                  by (auto simp: s3_def s2_def s1_def)
                then show "batch_size_of (data rb ! k) \<noteq> None" "k + 4 \<le> unat leftover"
                  using I3 Some inside by auto
              next
                show "4 dvd unat (rb_index s3)" "unat (rb_index s3) \<le> unat leftover"
                  using I4 next_index inside by (simp_all add: s3_def)
              qed
              have "unat leftover - unat (rb_index s3) < unat leftover - unat (rb_index s)"
                using next_index inside \<open>i < unat leftover\<close> by (simp add: s3_def i_def)
              from less.hyps [OF this inv3] step show ?thesis by simp
            qed
          qed
        qed
      qed
    qed
  qed
qed

text \<open>
  Claim C4, as the code has it. For a read buffer with \<open>copied < filled \<le>\<close> the size of
  the allocation (below 2 GiB) and a capacity of at least 3 (below 4 GiB), the decoder
  returns, and reads the buffer only at indices below \<open>filled\<close>. When \<open>copied = 0\<close> and it
  examines a packet whose status nibble is none of the six codes, or a packet whose
  payload fits the remaining capacity and whose four bytes reach past \<open>filled\<close>, it returns
  \<open>-EFAULT\<close> and leaves the buffer, \<open>copied\<close> included, as it was.
\<close>

theorem parse_fault_containment:
  assumes "unat (copied rb) < unat (filled rb)"
    and "unat (filled rb) \<le> length (data rb)"
    and "unat (filled rb) < 2 ^ 31"
    and "3 \<le> unat user_size" "unat user_size < 2 ^ 32"
  shows "\<exists>r. parse_buffered_data rb uw user_size = Some (Inr r) \<and>
           (\<forall>a \<in> set (reads r). access_indices a \<subseteq> {..< unat (filled rb)}) \<and>
           (copied rb = 0 \<longrightarrow>
              (\<forall>i. StatusRead i \<in> set (reads r) \<and>
                 (batch_size_of (data rb ! i) = None \<or>
                  (\<exists>b. batch_size_of (data rb ! i) = Some b \<and>
                       length (delivered r) + unat b \<le> unat user_size \<and>
                       unat (filled rb) < i + 4))
               \<longrightarrow> ret r = - EFAULT \<and> buffer_after r = rb))"
proof -
  define leftover where "leftover = filled rb - copied rb"
  define s0 where "s0 = \<lparr>rb_index = 0, rem_size = ucast user_size :: unsigned, parse_retval = 0,
                user_out = [], accesses = []\<rparr>"
  have le: "copied rb \<le> filled rb"
    using assms(1) by (simp add: word_le_nat_alt)
  have lo: "unat leftover = unat (filled rb) - unat (copied rb)"
    unfolding leftover_def by (rule unat_sub [OF le])
  have geom: "unat (copied rb) + unat leftover = unat (filled rb)"
    using lo assms(1) by simp
  have nz: "leftover \<noteq> 0" "user_size \<noteq> 0"
    using lo assms(1,4) by (auto simp: unat_eq_0 [symmetric] simp del: unat_eq_0)
  have trunc: "unat (ucast user_size :: unsigned) = unat user_size"
    using assms(5) by (simp add: unsigned_ucast_eq take_bit_nat_eq_self)
  have inv0: "decoder_inv rb leftover (unat user_size) s0"
    by (simp add: decoder_inv_def s0_def trunc reads_within_def)
  from parse_loop_total [OF geom assms(2,3) inv0, of uw]
  obtain e where e: "parse_loop rb leftover uw s0 = Some e"
    "decoder_post rb leftover (unat user_size) e"
    by blast
  show ?thesis
  proof (cases e)
    case (Crashed c)
    then show ?thesis using e(2) by simp
  next
    case (Efault t)
    then have "parse_buffered_data rb uw user_size =
        Some (Inr \<lparr>ret = - EFAULT, buffer_after = rb,
                   delivered = user_out t, reads = accesses t\<rparr>)"
      using e(1) nz
      by (simp add: parse_buffered_data_def leftover_def [symmetric] s0_def [symmetric])
    then show ?thesis
      using e(2) Efault by (simp add: reads_within_def)
  next
    case (LoopEnd t)
    then have res: "parse_buffered_data rb uw user_size =
        Some (Inr \<lparr>ret = sint (parse_retval t),
                   buffer_after = rb\<lparr>copied := copied rb + ucast (rb_index t)\<rparr>,
                   delivered = user_out t, reads = accesses t\<rparr>)"
      using e(1) nz
      by (simp add: parse_buffered_data_def leftover_def [symmetric] s0_def [symmetric])
    have post: "reads_within rb (accesses t)"
      "\<And>i. StatusRead i \<in> set (accesses t) \<Longrightarrow>
         \<exists>b. batch_size_of (data rb ! i) = Some b \<and>
              (unat leftover < i + 4 \<longrightarrow> unat user_size < length (user_out t) + unat b)"
      using e(2) LoopEnd by auto
    have none: "\<not> (StatusRead i \<in> set (accesses t) \<and>
                 (batch_size_of (data rb ! i) = None \<or>
                  (\<exists>b. batch_size_of (data rb ! i) = Some b \<and>
                       length (user_out t) + unat b \<le> unat user_size \<and>
                       unat (filled rb) < i + 4)))"
      if "copied rb = 0" for i
    proof
      assume a: "StatusRead i \<in> set (accesses t) \<and>
                 (batch_size_of (data rb ! i) = None \<or>
                  (\<exists>b. batch_size_of (data rb ! i) = Some b \<and>
                       length (user_out t) + unat b \<le> unat user_size \<and>
                       unat (filled rb) < i + 4))"
      from post(2) [of i] a obtain b where b: "batch_size_of (data rb ! i) = Some b"
        "unat leftover < i + 4 \<longrightarrow> unat user_size < length (user_out t) + unat b"
        by blast
      have "unat leftover = unat (filled rb)"
        using that lo by simp
      with a b show False by auto
    qed
    have within: "\<forall>a \<in> set (accesses t). access_indices a \<subseteq> {..< unat (filled rb)}"
      using post(1) by (simp add: reads_within_def)
    show ?thesis
      unfolding res using within none by (intro exI conjI) (simp, simp, fastforce)
  qed
qed

theorem parse_fault_containment_witness:
  "\<exists>r. parse_buffered_data \<lparr>data = [0, 1, 2, 3], bufsize = 4, filled = 4, copied = 0\<rparr> 3 3
          = Some (Inr r) \<and>
       StatusRead 0 \<in> set (reads r) \<and>
       batch_size_of ([0, 1, 2, 3] ! 0) = None \<and>
       ret r = - EFAULT \<and>
       buffer_after r = \<lparr>data = [0, 1, 2, 3], bufsize = 4, filled = 4, copied = 0\<rparr>"
proof -
  define rb where "rb = \<lparr>data = [0, 1, 2, 3 :: byte], bufsize = 4, filled = 4, copied = 0\<rparr>"
  have ev: "parse_buffered_data rb 3 3 =
      Some (Inr \<lparr>ret = - EFAULT, buffer_after = rb, delivered = [], reads = [StatusRead 0]\<rparr>)"
    by (simp add: rb_def codec_eval)
  have bad: "batch_size_of (data rb ! 0) = None"
    by (simp add: rb_def batch_size_of_def mk2_consts)
  from parse_fault_containment [of rb 3 3]
  obtain r where r: "parse_buffered_data rb 3 3 = Some (Inr r)"
    "copied rb = 0 \<longrightarrow>
              (\<forall>i. StatusRead i \<in> set (reads r) \<and>
                 (batch_size_of (data rb ! i) = None \<or>
                  (\<exists>b. batch_size_of (data rb ! i) = Some b \<and>
                       length (delivered r) + unat b \<le> unat (3 :: size_t) \<and>
                       unat (filled rb) < i + 4))
               \<longrightarrow> ret r = - EFAULT \<and> buffer_after r = rb)"
    by (auto simp: rb_def)
  have "r = \<lparr>ret = - EFAULT, buffer_after = rb, delivered = [], reads = [StatusRead 0]\<rparr>"
    using r(1) ev by simp
  then have rd: "StatusRead 0 \<in> set (reads r)"
    by simp
  have c0: "copied rb = 0"
    by (simp add: rb_def)
  have "ret r = - EFAULT \<and> buffer_after r = rb"
    using r(2) [rule_format, OF c0, of 0] rd bad by blast
  then show ?thesis
    using r(1) rd bad by (auto simp: rb_def)
qed

text \<open>
  The capacity is checked before the packet boundary: with room for 3 bytes, the second
  packet of this buffer is examined, reaches past \<open>filled\<close>, and the call returns 3 with
  \<open>copied\<close> advanced to 4.
\<close>

theorem parse_capacity_before_boundary_counterexample:
  "parse_buffered_data \<lparr>data = [4, 1, 2, 3, 4, 9], bufsize = 6, filled = 6, copied = 0\<rparr> 3 3 =
     Some (Inr \<lparr>ret = 3,
       buffer_after = \<lparr>data = [4, 1, 2, 3, 4, 9], bufsize = 6, filled = 6, copied = 4\<rparr>,
       delivered = [1, 2, 3],
       reads = [StatusRead 0, PayloadRead 1 3, StatusRead 4]\<rparr>)"
  by (simp add: codec_eval)

text \<open>
  What holds of every decode step, whatever the packets: \<open>copied\<close> advances by a multiple
  of 4 and stays within \<open>filled\<close>, and nothing else of the buffer changes.
\<close>

lemma decode_step_advance:
  assumes "unat (copied rb) < unat (filled rb)"
    and "unat (filled rb) \<le> length (data rb)"
    and "unat (filled rb) < 2 ^ 31"
    and "0 < unat user_size"
  shows "\<exists>r k. parse_buffered_data rb uw user_size = Some (Inr r) \<and>
           unat (copied (buffer_after r)) = unat (copied rb) + 4 * k \<and>
           unat (copied (buffer_after r)) \<le> unat (filled rb) \<and>
           filled (buffer_after r) = filled rb \<and> data (buffer_after r) = data rb"
proof -
  define leftover where "leftover = filled rb - copied rb"
  define s0 where "s0 = \<lparr>rb_index = 0, rem_size = ucast user_size :: unsigned, parse_retval = 0,
                user_out = [], accesses = []\<rparr>"
  define U where "U = unat (ucast user_size :: unsigned)"
  have le: "copied rb \<le> filled rb"
    using assms(1) by (simp add: word_le_nat_alt)
  have lo: "unat leftover = unat (filled rb) - unat (copied rb)"
    unfolding leftover_def by (rule unat_sub [OF le])
  have geom: "unat (copied rb) + unat leftover = unat (filled rb)"
    using lo assms(1) by simp
  have nz: "leftover \<noteq> 0" "user_size \<noteq> 0"
    using lo assms(1,4) by (auto simp: unat_eq_0 [symmetric] simp del: unat_eq_0)
  have inv0: "decoder_inv rb leftover U s0"
    by (simp add: decoder_inv_def s0_def U_def reads_within_def)
  from parse_loop_total [OF geom assms(2,3) inv0, of uw]
  obtain e where e: "parse_loop rb leftover uw s0 = Some e"
    "decoder_post rb leftover U e"
    by blast
  show ?thesis
  proof (cases e)
    case (Crashed c)
    then show ?thesis using e(2) by simp
  next
    case (Efault t)
    then have "parse_buffered_data rb uw user_size =
        Some (Inr \<lparr>ret = - EFAULT, buffer_after = rb,
                   delivered = user_out t, reads = accesses t\<rparr>)"
      using e(1) nz
      by (simp add: parse_buffered_data_def leftover_def [symmetric] s0_def [symmetric])
    moreover have "unat (copied rb) = unat (copied rb) + 4 * 0" by simp
    ultimately show ?thesis
      using assms(1) by (intro exI conjI) (assumption, simp_all)
  next
    case (LoopEnd t)
    then have res: "parse_buffered_data rb uw user_size =
        Some (Inr \<lparr>ret = sint (parse_retval t),
                   buffer_after = rb\<lparr>copied := copied rb + ucast (rb_index t)\<rparr>,
                   delivered = user_out t, reads = accesses t\<rparr>)"
      using e(1) nz
      by (simp add: parse_buffered_data_def leftover_def [symmetric] s0_def [symmetric])
    have post: "4 dvd unat (rb_index t)" "unat (rb_index t) \<le> unat leftover"
      using e(2) LoopEnd by auto
    then obtain k where k: "unat (rb_index t) = 4 * k" by (auto simp: dvd_def)
    have "unat (copied rb) + unat (ucast (rb_index t) :: size_t) < 2 ^ 64"
      using post(2) geom unsigned_less [of "filled rb", where 'a = nat]
      by (simp add: unat_ucast_index)
    then have adv: "unat (copied rb + ucast (rb_index t)) = unat (copied rb) + unat (rb_index t)"
      by (simp add: unat_word_ariths unat_ucast_index)
    show ?thesis
      unfolding res using adv k post(2) geom
      by (intro exI [of _ "\<lparr>ret = sint (parse_retval t),
                   buffer_after = rb\<lparr>copied := copied rb + ucast (rb_index t)\<rparr>,
                   delivered = user_out t, reads = accesses t\<rparr>"] exI [of _ k]) simp
  qed
qed

text \<open>
  The decoder reads below \<open>filled\<close> only, so its result does not depend on the stale
  bytes: with other bytes from \<open>filled\<close> on, every iteration, the loop and the call give
  the same.
\<close>

lemma parse_packet_continue:
  assumes "parse_packet rb l uw s = Continue s'"
  shows "unat (rb_index s) < length (data rb)" "rb_index s' = rb_index s + 4"
  using assms
  by (auto simp: parse_packet_def Let_def mk2_consts split: if_splits option.splits)

lemma block_within_prefix:
  assumes "take F xs = take F ys" "src + n \<le> F"
  shows "take n (drop src xs) = take n (drop src ys)"
proof -
  have "take n (drop src zs) = take n (drop src (take F zs))" for zs :: "'a list"
    using assms(2) by (simp add: drop_take min_def)
  then show ?thesis using assms(1) by metis
qed

lemma nth_within_prefix:
  assumes "take F xs = take F ys" "i < F"
  shows "xs ! i = ys ! i"
  using assms by (metis nth_take)

lemma parse_packet_prefix:
  assumes len: "length d2 = length (data rb)" "length (data rb) < 2 ^ 31"
    and pre: "take (unat (filled rb)) d2 = take (unat (filled rb)) (data rb)"
    and geom: "unat (copied rb) + unat l = unat (filled rb)"
    and i: "unat (rb_index s) < unat l"
  shows "parse_packet (rb\<lparr>data := d2\<rparr>) l uw s = parse_packet rb l uw s"
proof (cases "length (data rb) \<le> unat (rb_index s)")
  case True
  then show ?thesis by (simp add: parse_packet_def len)
next
  case False
  then have small: "unat (rb_index s) + 4 < 2 ^ 32" using len(2) by simp
  have st: "d2 ! unat (rb_index s) = data rb ! unat (rb_index s)"
    using pre i geom by (intro nth_within_prefix [of "unat (filled rb)"]) simp_all
  have blk: "take m (drop (unat (copied rb + ucast (rb_index s) + 1)) d2) =
             take m (drop (unat (copied rb + ucast (rb_index s) + 1)) (data rb))"
    if "\<not> l < ucast (rb_index s + MK2_STUFFED_PACKET_SIZE)" "m \<le> 3" for m
  proof -
    have le: "unat (rb_index s) + 4 \<le> unat l"
      using that(1) small
      by (simp add: word_less_nat_alt unat_ucast_index index_plus4 mk2_consts)
    have "unat (copied rb) + unat (rb_index s) + 1 < 2 ^ 64"
      using le geom unsigned_less [of "filled rb", where 'a = nat] by simp
    then have "unat (copied rb + ucast (rb_index s) + 1) = unat (copied rb) + unat (rb_index s) + 1"
      by (rule source_index)
    then show ?thesis
      using le geom that(2) by (intro block_within_prefix [OF pre]) simp
  qed
  show ?thesis
    using False st
    by (auto simp: parse_packet_def Let_def len blk dest: batch_size_of_le split: option.splits)
qed

lemma parse_loop_prefix:
  assumes len: "length d2 = length (data rb)" "length (data rb) < 2 ^ 31"
    and pre: "take (unat (filled rb)) d2 = take (unat (filled rb)) (data rb)"
    and geom: "unat (copied rb) + unat l = unat (filled rb)"
  shows "parse_loop (rb\<lparr>data := d2\<rparr>) l uw s = parse_loop rb l uw s"
proof (induction "length (data rb) + 4 - unat (rb_index s)" arbitrary: s rule: less_induct)
  case less
  show ?case
  proof (cases "ucast (rb_index s) < l")
    case False
    then show ?thesis
      by (simp add: parse_loop.simps [of _ l uw s])
  next
    case True
    then have i: "unat (rb_index s) < unat l"
      by (simp add: word_less_nat_alt unat_ucast_index)
    note pk = parse_packet_prefix [OF len pre geom i, of uw]
    show ?thesis
    proof (cases "parse_packet rb l uw s")
      case (Stop e)
      then show ?thesis using True pk
        by (simp add: parse_loop.simps [of _ l uw s])
    next
      case (Continue s')
      from parse_packet_continue [OF this] len(2)
      have "unat (rb_index s') = unat (rb_index s) + 4" "unat (rb_index s) < length (data rb)"
        by (simp_all add: index_plus4)
      then have "length (data rb) + 4 - unat (rb_index s') < length (data rb) + 4 - unat (rb_index s)"
        by simp
      from less [OF this] show ?thesis using True pk Continue
        by (simp add: parse_loop.simps [of _ l uw s])
    qed
  qed
qed

lemma parse_buffered_data_prefix:
  assumes len: "length d2 = length (data rb)" "length (data rb) < 2 ^ 31"
    and pre: "take (unat (filled rb)) d2 = take (unat (filled rb)) (data rb)"
    and le: "unat (copied rb) \<le> unat (filled rb)"
  shows "parse_buffered_data (rb\<lparr>data := d2\<rparr>) uw count =
         map_option (map_sum id (redata d2)) (parse_buffered_data rb uw count)"
proof -
  have "copied rb \<le> filled rb" using le by (simp add: word_le_nat_alt)
  then have "unat (filled rb - copied rb) = unat (filled rb) - unat (copied rb)"
    by (rule unat_sub)
  then have geom: "unat (copied rb) + unat (filled rb - copied rb) = unat (filled rb)"
    using le by simp
  show ?thesis
    by (simp add: parse_buffered_data_def Let_def parse_loop_prefix [OF len pre geom] redata_def
          split: option.splits loop_exit.splits)
qed

section \<open>Properties of the write channel\<close>

lemma truncated_count:
  fixes count :: size_t
  assumes "count \<noteq> 0"
  shows "0 < unat (min count USB_MK2_MAX_OUT_LEN)" "unat (min count USB_MK2_MAX_OUT_LEN) \<le> 407"
proof -
  have "0 < unat count" using assms by (simp add: unat_gt_0)
  then show "0 < unat (min count USB_MK2_MAX_OUT_LEN)"
    by (simp add: min_def USB_MK2_MAX_OUT_LEN_def)
  show "unat (min count USB_MK2_MAX_OUT_LEN) \<le> 407"
    by (simp add: min_def USB_MK2_MAX_OUT_LEN_def word_le_nat_alt)
qed

lemma frame_of_Some:
  assumes "count \<noteq> 0" "unat (min count USB_MK2_MAX_OUT_LEN) \<le> length user_memory"
  shows "\<exists>frame. frame_of user_memory (min count USB_MK2_MAX_OUT_LEN) = Some frame \<and>
           length frame = unat (compute_stuffed_size (min count USB_MK2_MAX_OUT_LEN))"
proof -
  define n where "n = min count USB_MK2_MAX_OUT_LEN"
  have n: "0 < unat n" "unat n \<le> 407"
    using truncated_count [OF assms(1)] by (simp_all add: n_def)
  have len: "length (take (unat n) user_memory) = unat n"
    using assms(2) by (simp add: n_def)
  have small: "unat n \<le> 2 ^ 62" using n by simp
  have "length (replicate (unat (compute_stuffed_size n)) (0 :: byte)) < 2 ^ 64"
    using unsigned_less [of "compute_stuffed_size n", where 'a = nat] by simp
  from stuff_buffer_total [OF len n(1) small _ this]
  show ?thesis by (simp add: frame_of_def n_def)
qed

lemma acquire_slot:
  assumes "takes_slot dev env"
  shows "(if \<not> w_nonblock env then
            (case down_interruptible dev env of
               None \<Rightarrow> None
             | Some (r, dev) \<Rightarrow> Some (if r \<noteq> 0 then Inl (- ERESTARTSYS) else Inr dev))
          else
            (case down_trylock dev of
               (r, dev) \<Rightarrow> Some (if r \<noteq> 0 then Inl (- EAGAIN) else Inr dev)))
         = Some (Inr (slot_taken dev))"
proof -
  have same: "(write_endp dev)\<lparr>limit_sem := 0\<rparr> = write_endp dev"
    if "limit_sem (write_endp dev) = 0"
    using that by (cases "write_endp dev") simp
  show ?thesis
    using assms
    by (auto simp: takes_slot_def slot_taken_def down_interruptible_def down_trylock_def same)
qed

lemma slot_taken_fields [simp]:
  "write_errors (write_endp (slot_taken dev)) = write_errors (write_endp dev)"
  "state (slot_taken dev) = state dev"
  "read_endp (slot_taken dev) = read_endp dev"
  "kernel_log (slot_taken dev) = kernel_log dev @ [SemDown]"
  "limit_sem (write_endp (slot_taken dev)) = limit_sem (write_endp dev) - 1"
  by (simp_all add: slot_taken_def log_call_def)

lemma mk2_write_success:
  assumes "count \<noteq> 0" "nothing_fails dev env user_memory count"
  shows "\<exists>frame. frame_of user_memory (min count USB_MK2_MAX_OUT_LEN) = Some frame \<and>
           mk2_write dev env user_memory count =
             Returns (int (unat (min count USB_MK2_MAX_OUT_LEN)),
                      log_call (SubmitWrite frame 0) (slot_taken dev))"
proof -
  from assms(2) have nf: "takes_slot dev env" "0 \<le> write_errors (write_endp dev)"
    "alloc_urb_ok env" "alloc_coherent_ok env" "access_ok env" "kmalloc_ok env"
    "unat (min count USB_MK2_MAX_OUT_LEN) \<le> length user_memory"
    "\<not> disconnected (state dev)" "w_submit_ret env = 0"
    by (simp_all add: nothing_fails_def)
  from frame_of_Some [OF assms(1) nf(7)] obtain frame where
    frame: "frame_of user_memory (min count USB_MK2_MAX_OUT_LEN) = Some frame"
    by blast
  have "mk2_write dev env user_memory count =
             Returns (int (unat (min count USB_MK2_MAX_OUT_LEN)),
                      log_call (SubmitWrite frame 0) (slot_taken dev))"
    using assms(1) nf frame [unfolded frame_of_def]
    by (simp add: mk2_write_def mk2_write_slot_held_def Let_def acquire_slot memdup_user_def)
  with frame show ?thesis by blast
qed

lemma mk2_write_sticky:
  assumes "count \<noteq> 0" "takes_slot dev env" "write_errors (write_endp dev) < 0"
  shows "mk2_write dev env user_memory count =
     Returns (if write_errors (write_endp dev) = - EPIPE then - EPIPE else - EIO,
       up ((slot_taken dev)\<lparr>write_endp := (write_endp (slot_taken dev))\<lparr>write_errors := 0\<rparr>\<rparr>))"
  using assms
  by (simp add: mk2_write_def mk2_write_slot_held_def Let_def acquire_slot write_error_def
      errno_defs)

lemma nothing_fails_probe:
  "unat (min count USB_MK2_MAX_OUT_LEN) \<le> length user_memory \<Longrightarrow>
     nothing_fails (mk2_probe maxp) write_env_ok user_memory count"
  by (simp add: nothing_fails_def takes_slot_def mk2_probe_def write_env_ok_def
      WRITES_IN_FLIGHT_def)

text \<open>
  Claim C5, as the code has it. A write of length 0 returns 0 and leaves the device as it
  was: no slot is taken, nothing is submitted. A write of a nonzero length in which nothing
  fails submits the frame of the first \<open>min count 407\<close> bytes and returns \<open>min count 407\<close>:
  a longer payload is truncated, and the value returned is the truncated count.
\<close>

theorem mk2_write_length_handling:
  "mk2_write dev env user_memory 0 = Returns (0, dev) \<and>
   (count \<noteq> 0 \<and> nothing_fails dev env user_memory count \<longrightarrow>
      (\<exists>frame. frame_of user_memory (min count USB_MK2_MAX_OUT_LEN) = Some frame \<and>
         mk2_write dev env user_memory count =
           Returns (int (unat (min count USB_MK2_MAX_OUT_LEN)),
                    log_call (SubmitWrite frame 0) (slot_taken dev))))"
proof
  show "mk2_write dev env user_memory 0 = Returns (0, dev)"
    by (simp add: mk2_write_def)
  show "count \<noteq> 0 \<and> nothing_fails dev env user_memory count \<longrightarrow>
      (\<exists>frame. frame_of user_memory (min count USB_MK2_MAX_OUT_LEN) = Some frame \<and>
         mk2_write dev env user_memory count =
           Returns (int (unat (min count USB_MK2_MAX_OUT_LEN)),
                    log_call (SubmitWrite frame 0) (slot_taken dev)))"
    using mk2_write_success by blast
qed

theorem mk2_write_length_handling_witness:
  "mk2_write (mk2_probe 64) write_env_ok (replicate 500 7) 0 = Returns (0, mk2_probe 64) \<and>
   (\<exists>dev'. mk2_write (mk2_probe 64) write_env_ok (replicate 500 7) 500 = Returns (407, dev'))"
proof -
  have nz: "(500 :: size_t) \<noteq> 0" by simp
  have m: "min (500 :: size_t) USB_MK2_MAX_OUT_LEN = 407"
    by (simp add: USB_MK2_MAX_OUT_LEN_def)
  have nf: "nothing_fails (mk2_probe 64) write_env_ok (replicate 500 7) 500"
    by (rule nothing_fails_probe) (simp add: m)
  from mk2_write_length_handling [of "mk2_probe 64" write_env_ok "replicate 500 7" 500]
  show ?thesis
    using nz nf by (auto simp: m)
qed

text \<open>
  A write of 408 bytes is submitted and returns 407, the truncated count, not the count
  the caller passed.
\<close>

theorem mk2_write_returns_truncated_count_counterexample:
  "\<exists>frame. mk2_write (mk2_probe 64) write_env_ok (replicate 408 0) 408 =
     Returns (407, log_call (SubmitWrite frame 0) (slot_taken (mk2_probe 64)))"
proof -
  have nz: "(408 :: size_t) \<noteq> 0" by simp
  have m: "min (408 :: size_t) USB_MK2_MAX_OUT_LEN = 407"
    by (simp add: USB_MK2_MAX_OUT_LEN_def)
  have nf: "nothing_fails (mk2_probe 64) write_env_ok (replicate 408 0) 408"
    by (rule nothing_fails_probe) (simp add: m)
  from mk2_write_success [OF nz nf] show ?thesis
    by (auto simp: m)
qed

text \<open>
  Claim C6. A write call of nonzero length that gets a slot while the sticky error of the
  write channel is negative returns \<open>-EPIPE\<close> when the error is \<open>-EPIPE\<close> and \<open>-EIO\<close>
  otherwise; it clears the error, and takes and releases the slot without anything else.
  The error is then gone: a later write call in which nothing fails is submitted and
  returns its count.
\<close>

theorem mk2_write_sticky_error_once:
  assumes "count \<noteq> 0" "takes_slot dev env" "write_errors (write_endp dev) < 0"
  shows "\<exists>dev'. mk2_write dev env user_memory count =
             Returns (if write_errors (write_endp dev) = - EPIPE then - EPIPE else - EIO, dev') \<and>
           write_errors (write_endp dev') = 0 \<and>
           kernel_log dev' = kernel_log dev @ [SemDown, SemUp] \<and>
           limit_sem (write_endp dev') = limit_sem (write_endp dev) - 1 + 1 \<and>
           (\<forall>env2 memory2 count2.
              count2 \<noteq> 0 \<and> \<not> disconnected (state dev) \<and>
              alloc_urb_ok env2 \<and> alloc_coherent_ok env2 \<and> access_ok env2 \<and> kmalloc_ok env2 \<and>
              unat (min count2 USB_MK2_MAX_OUT_LEN) \<le> length memory2 \<and> w_submit_ret env2 = 0
              \<longrightarrow> (\<exists>frame. mk2_write dev' env2 memory2 count2 =
                     Returns (int (unat (min count2 USB_MK2_MAX_OUT_LEN)),
                              log_call (SubmitWrite frame 0) (slot_taken dev'))))"
proof -
  define dev' where
    "dev' = up ((slot_taken dev)\<lparr>write_endp := (write_endp (slot_taken dev))\<lparr>write_errors := 0\<rparr>\<rparr>)"
  have ret: "mk2_write dev env user_memory count =
      Returns (if write_errors (write_endp dev) = - EPIPE then - EPIPE else - EIO, dev')"
    unfolding dev'_def by (rule mk2_write_sticky [OF assms])
  have fields: "write_errors (write_endp dev') = 0"
    "kernel_log dev' = kernel_log dev @ [SemDown, SemUp]"
    "limit_sem (write_endp dev') = limit_sem (write_endp dev) - 1 + 1"
    "state dev' = state dev"
    by (simp_all add: dev'_def up_def log_call_def)
  have again: "\<exists>frame. mk2_write dev' env2 memory2 count2 =
                     Returns (int (unat (min count2 USB_MK2_MAX_OUT_LEN)),
                              log_call (SubmitWrite frame 0) (slot_taken dev'))"
    if "count2 \<noteq> 0 \<and> \<not> disconnected (state dev) \<and>
              alloc_urb_ok env2 \<and> alloc_coherent_ok env2 \<and> access_ok env2 \<and> kmalloc_ok env2 \<and>
              unat (min count2 USB_MK2_MAX_OUT_LEN) \<le> length memory2 \<and> w_submit_ret env2 = 0"
    for env2 memory2 count2
  proof -
    have "nothing_fails dev' env2 memory2 count2"
      using that fields by (simp add: nothing_fails_def takes_slot_def)
    from mk2_write_success [OF _ this] that show ?thesis by blast
  qed
  show ?thesis
    using ret fields(1,2,3) again by blast
qed

theorem mk2_write_sticky_error_once_witness:
  "\<exists>dev'. mk2_write ((mk2_probe 64)\<lparr>write_endp := \<lparr>limit_sem = 8, write_errors = - EPIPE\<rparr>\<rparr>)
            write_env_ok [1, 2, 3] 3 = Returns (- EPIPE, dev') \<and>
          write_errors (write_endp dev') = 0 \<and>
          (\<exists>frame. mk2_write dev' write_env_ok [1, 2, 3] 3 =
              Returns (3, log_call (SubmitWrite frame 0) (slot_taken dev')))"
proof -
  define dev where "dev = (mk2_probe 64)\<lparr>write_endp := \<lparr>limit_sem = 8, write_errors = - EPIPE\<rparr>\<rparr>"
  have h: "(3 :: size_t) \<noteq> 0" "takes_slot dev write_env_ok" "write_errors (write_endp dev) < 0"
    by (simp_all add: dev_def takes_slot_def errno_defs)
  have e: "write_errors (write_endp dev) = - EPIPE" by (simp add: dev_def)
  have nd: "\<not> disconnected (state dev)" by (simp add: dev_def mk2_probe_def)
  have m: "unat (min (3 :: size_t) USB_MK2_MAX_OUT_LEN) = 3"
    by (simp add: USB_MK2_MAX_OUT_LEN_def)
  from mk2_write_sticky_error_once [OF h, of "[1, 2, 3]"]
  obtain dev' where d: "mk2_write dev write_env_ok [1, 2, 3] 3 = Returns (- EPIPE, dev')"
    "write_errors (write_endp dev') = 0"
    "\<forall>env2 memory2 count2.
              count2 \<noteq> 0 \<and> \<not> disconnected (state dev) \<and>
              alloc_urb_ok env2 \<and> alloc_coherent_ok env2 \<and> access_ok env2 \<and> kmalloc_ok env2 \<and>
              unat (min count2 USB_MK2_MAX_OUT_LEN) \<le> length memory2 \<and> w_submit_ret env2 = 0
              \<longrightarrow> (\<exists>frame. mk2_write dev' env2 memory2 count2 =
                     Returns (int (unat (min count2 USB_MK2_MAX_OUT_LEN)),
                              log_call (SubmitWrite frame 0) (slot_taken dev')))"
    using e by auto
  from d(3) [rule_format, of 3 write_env_ok "[1, 2, 3]"] nd m
  have "\<exists>frame. mk2_write dev' write_env_ok [1, 2, 3] 3 =
              Returns (3, log_call (SubmitWrite frame 0) (slot_taken dev'))"
    by (simp add: write_env_ok_def)
  with d(1,2) show ?thesis
    unfolding dev_def by blast
qed

text \<open>
  Claim C7, as the code has it. The completion callback of a write transfer records the
  status as sticky error whenever it is nonzero, the statuses of a cancellation
  included; only the \<open>dev_err\<close> line is left out for those. In every case it frees the
  transfer buffer once and releases one slot.
\<close>

theorem mk2_write_bulk_callback_effect:
  "write_errors (write_endp (mk2_write_bulk_callback dev status)) =
     (if status \<noteq> 0 then status else write_errors (write_endp dev)) \<and>
   limit_sem (write_endp (mk2_write_bulk_callback dev status)) = limit_sem (write_endp dev) + 1 \<and>
   kernel_log (mk2_write_bulk_callback dev status) =
     kernel_log dev @
     (if status \<noteq> 0 \<and> status \<noteq> - ENOENT \<and> status \<noteq> - ECONNRESET \<and> status \<noteq> - ESHUTDOWN
      then [DevErr] else []) @
     [FreeCoherent, SemUp] \<and>
   read_endp (mk2_write_bulk_callback dev status) = read_endp dev \<and>
   state (mk2_write_bulk_callback dev status) = state dev"
  by (simp add: mk2_write_bulk_callback_def Let_def up_def log_call_def)

text \<open>The statuses of a cancelled transfer are recorded as sticky error too.\<close>

theorem mk2_write_bulk_callback_records_cancellation_counterexample:
  "write_errors (write_endp (mk2_probe 64)) = 0 \<and>
   write_errors (write_endp (mk2_write_bulk_callback (mk2_probe 64) (- ENOENT))) = - ENOENT \<and>
   write_errors (write_endp (mk2_write_bulk_callback (mk2_probe 64) (- ECONNRESET))) = - ECONNRESET \<and>
   write_errors (write_endp (mk2_write_bulk_callback (mk2_probe 64) (- ESHUTDOWN))) = - ESHUTDOWN"
  by (simp add: mk2_write_bulk_callback_def Let_def up_def log_call_def mk2_probe_def errno_defs)

section \<open>Properties of the read channel and of disconnection\<close>

lemma write_error_submissions:
  "write_error d u b r = Returns (r', d') \<Longrightarrow> submissions d' = submissions d"
  by (auto simp: write_error_def submissions_def up_def log_call_def Let_def split: if_splits)

lemma slot_taken_submissions [simp]: "submissions (slot_taken dev) = submissions dev"
  by (simp add: submissions_def)

lemma down_interruptible_cases:
  "down_interruptible dev env = None \<or>
   (\<exists>r. r \<noteq> 0 \<and> down_interruptible dev env = Some (r, dev)) \<or>
   down_interruptible dev env = Some (0, slot_taken dev)"
proof -
  have same: "(write_endp dev)\<lparr>limit_sem := 0\<rparr> = write_endp dev"
    if "limit_sem (write_endp dev) = 0"
    using that by (cases "write_endp dev") simp
  show ?thesis
    by (auto simp: down_interruptible_def slot_taken_def same split: option.splits)
qed

lemma down_trylock_cases:
  "down_trylock dev = (1, dev) \<or> down_trylock dev = (0, slot_taken dev)"
  by (auto simp: down_trylock_def slot_taken_def)

lemma slot_held_disconnected_no_submission:
  assumes "disconnected (state dev)"
    and "mk2_write_slot_held dev env user_memory count stuffed_size = Returns (r, dev')"
  shows "submissions dev' = submissions dev"
  using assms
  by (auto simp: mk2_write_slot_held_def Let_def submissions_def
      split: if_splits sum.splits option.splits
      dest!: write_error_submissions)

lemma mk2_write_disconnected_no_submission:
  assumes "disconnected (state dev)"
    and "mk2_write dev env user_memory count = Returns (r, dev')"
  shows "submissions dev' = submissions dev"
proof (cases "count = 0")
  case True
  then show ?thesis using assms(2) by (simp add: mk2_write_def)
next
  case False
  define acquired where "acquired =
         (if \<not> w_nonblock env then
            (case down_interruptible dev env of
               None \<Rightarrow> None
             | Some (r, dev) \<Rightarrow> Some (if r \<noteq> 0 then Inl (- ERESTARTSYS) else Inr dev))
          else
            (case down_trylock dev of
               (r, dev) \<Rightarrow> Some (if r \<noteq> 0 then Inl (- EAGAIN) else Inr dev)))"
  have acq: "acquired = None \<or> (\<exists>e. acquired = Some (Inl e)) \<or> acquired = Some (Inr (slot_taken dev))"
    using down_interruptible_cases [of dev env] down_trylock_cases [of dev]
    by (auto simp: acquired_def)
  have unfold: "mk2_write dev env user_memory count =
     (case acquired of
            None \<Rightarrow> Hangs
          | Some (Inl retval) \<Rightarrow> Returns (retval, dev)
          | Some (Inr dev) \<Rightarrow> mk2_write_slot_held dev env user_memory
              (min count USB_MK2_MAX_OUT_LEN) (compute_stuffed_size (min count USB_MK2_MAX_OUT_LEN)))"
    using False by (simp add: mk2_write_def Let_def acquired_def)
  from acq show ?thesis
  proof (elim disjE exE)
    assume "acquired = None"
    then show ?thesis using assms(2) unfold by simp
  next
    fix e assume "acquired = Some (Inl e)"
    then show ?thesis using assms(2) unfold by simp
  next
    assume a: "acquired = Some (Inr (slot_taken dev))"
    have "disconnected (state (slot_taken dev))" using assms(1) by simp
    from slot_held_disconnected_no_submission [OF this] assms(2) unfold a
    show ?thesis by simp
  qed
qed

lemma mk2_write_disconnected:
  assumes "disconnected (state dev)" "count \<noteq> 0" "takes_slot dev env"
    "0 \<le> write_errors (write_endp dev)" "alloc_urb_ok env" "alloc_coherent_ok env"
    "access_ok env" "kmalloc_ok env"
    "unat (min count USB_MK2_MAX_OUT_LEN) \<le> length user_memory"
  shows "mk2_write dev env user_memory count =
           Returns (- ENODEV, up (log_call FreeCoherent (slot_taken dev)))"
proof -
  from frame_of_Some [OF assms(2,9)] obtain frame where
    frame: "frame_of user_memory (min count USB_MK2_MAX_OUT_LEN) = Some frame"
    by blast
  show ?thesis
    using assms frame [unfolded frame_of_def]
    by (simp add: mk2_write_def mk2_write_slot_held_def Let_def acquire_slot memdup_user_def
        write_error_def)
qed

lemma mk2_read_disconnected:
  assumes "disconnected (state dev)"
  shows "mk2_read dev env waits uw count =
     Returns (if count < MK2_SYSEX_PACKET_SIZE then - EINVAL
              else if lock_ret env < 0 then lock_ret env else - ENODEV, dev, [])"
  using assms by (simp add: mk2_read_def Let_def)

text \<open>
  Claim C9, as the code has it. Once the flag \<open>disconnected\<close> is set: a read call returns
  without touching the device, with \<open>-EINVAL\<close> when it asks for fewer than 3 bytes, with
  the error of the lock when it does not get it, and with \<open>-ENODEV\<close> otherwise; a write of
  length 0 returns 0; a write call that gets as far as the check (nonzero length, slot
  taken, no sticky error, allocations and user copy fine) returns \<open>-ENODEV\<close> after freeing
  its buffer and releasing its slot; and no write call that returns has submitted a
  transfer. The caller's blocking mode plays no part.
\<close>

theorem disconnected_calls:
  assumes "disconnected (state dev)"
  shows "mk2_read dev renv waits uw count =
           Returns (if count < MK2_SYSEX_PACKET_SIZE then - EINVAL
                    else if lock_ret renv < 0 then lock_ret renv else - ENODEV, dev, []) \<and>
         mk2_write dev wenv user_memory 0 = Returns (0, dev) \<and>
         (wcount \<noteq> 0 \<and> takes_slot dev wenv \<and> 0 \<le> write_errors (write_endp dev) \<and>
          alloc_urb_ok wenv \<and> alloc_coherent_ok wenv \<and> access_ok wenv \<and> kmalloc_ok wenv \<and>
          unat (min wcount USB_MK2_MAX_OUT_LEN) \<le> length user_memory \<longrightarrow>
            mk2_write dev wenv user_memory wcount =
              Returns (- ENODEV, up (log_call FreeCoherent (slot_taken dev)))) \<and>
         (\<forall>r dev'. mk2_write dev wenv user_memory wcount = Returns (r, dev') \<longrightarrow>
            submissions dev' = submissions dev)"
proof (intro conjI)
  show "mk2_read dev renv waits uw count =
           Returns (if count < MK2_SYSEX_PACKET_SIZE then - EINVAL
                    else if lock_ret renv < 0 then lock_ret renv else - ENODEV, dev, [])"
    using assms by (rule mk2_read_disconnected)
  show "mk2_write dev wenv user_memory 0 = Returns (0, dev)"
    by (simp add: mk2_write_def)
  show "wcount \<noteq> 0 \<and> takes_slot dev wenv \<and> 0 \<le> write_errors (write_endp dev) \<and>
          alloc_urb_ok wenv \<and> alloc_coherent_ok wenv \<and> access_ok wenv \<and> kmalloc_ok wenv \<and>
          unat (min wcount USB_MK2_MAX_OUT_LEN) \<le> length user_memory \<longrightarrow>
            mk2_write dev wenv user_memory wcount =
              Returns (- ENODEV, up (log_call FreeCoherent (slot_taken dev)))"
    using mk2_write_disconnected [OF assms] by blast
  show "\<forall>r dev'. mk2_write dev wenv user_memory wcount = Returns (r, dev') \<longrightarrow>
            submissions dev' = submissions dev"
    using mk2_write_disconnected_no_submission [OF assms] by blast
qed

theorem disconnected_calls_witness:
  "mk2_read (mk2_disconnect (mk2_probe 64)) read_env_ok [] 3 3 =
     Returns (- ENODEV, mk2_disconnect (mk2_probe 64), []) \<and>
   (\<exists>dev'. mk2_write (mk2_disconnect (mk2_probe 64)) write_env_ok [1, 2, 3] 3 =
      Returns (- ENODEV, dev') \<and>
      submissions dev' = submissions (mk2_disconnect (mk2_probe 64)))"
proof -
  define dev where "dev = mk2_disconnect (mk2_probe 64)"
  have d: "disconnected (state dev)"
    by (simp add: dev_def mk2_disconnect_def)
  have r: "\<not> (3 :: size_t) < MK2_SYSEX_PACKET_SIZE" "\<not> lock_ret read_env_ok < 0"
    by (simp_all add: mk2_consts read_env_ok_def)
  have w: "(3 :: size_t) \<noteq> 0 \<and> takes_slot dev write_env_ok \<and> 0 \<le> write_errors (write_endp dev) \<and>
          alloc_urb_ok write_env_ok \<and> alloc_coherent_ok write_env_ok \<and> access_ok write_env_ok \<and>
          kmalloc_ok write_env_ok \<and>
          unat (min (3 :: size_t) USB_MK2_MAX_OUT_LEN) \<le> length [1, 2, 3 :: byte]"
    by (simp add: dev_def mk2_disconnect_def mk2_probe_def takes_slot_def write_env_ok_def
        WRITES_IN_FLIGHT_def USB_MK2_MAX_OUT_LEN_def)
  from disconnected_calls [OF d, of read_env_ok "[]" 3 3 write_env_ok "[1, 2, 3]" 3] r w
  show ?thesis
    unfolding dev_def by auto
qed

text \<open>
  The checks before the flag win: on a disconnected device a write of length 0 returns 0
  and a read of 2 bytes returns \<open>-EINVAL\<close>.
\<close>

theorem disconnected_calls_counterexample:
  "mk2_write (mk2_disconnect (mk2_probe 64)) write_env_ok [] 0 =
     Returns (0, mk2_disconnect (mk2_probe 64)) \<and>
   mk2_read (mk2_disconnect (mk2_probe 64)) read_env_ok [] 2 2 =
     Returns (- EINVAL, mk2_disconnect (mk2_probe 64), [])"
  by (simp add: mk2_write_def mk2_read_def mk2_consts)

lemma mk2_request_read_effect:
  "filled (buffer (read_endp (snd (mk2_request_read dev c sr)))) = 0"
  "copied (buffer (read_endp (snd (mk2_request_read dev c sr)))) = 0"
  "requested_read (read_endp (snd (mk2_request_read dev c sr))) = (\<not> sr < 0)"
  "read_errors (read_endp (snd (mk2_request_read dev c sr))) = read_errors (read_endp dev)"
  "fst (mk2_request_read dev c sr) < 0 \<longleftrightarrow> sr < 0"
  "state (snd (mk2_request_read dev c sr)) = state dev"
  by (simp_all add: mk2_request_read_def Let_def log_call_def errno_defs)

text \<open>
  The loop of \<open>mk2_read\<close> as the iteration of its two halves.
\<close>

lemma mk2_read_retry_round:
  "mk2_read_retry env uw count dev waits k =
     (case read_wait env dev waits of
        None \<Rightarrow> Hangs
      | Some (Inl retval) \<Rightarrow> Returns (retval, dev, [])
      | Some (Inr (d, ws)) \<Rightarrow>
          (case read_drain env uw count d k of
             Inl res \<Rightarrow> res
           | Inr d' \<Rightarrow> mk2_read_retry env uw count d' ws (k + 1)))"
  by (subst mk2_read_retry.simps)
     (simp add: read_wait_def read_drain_def Let_def
        split: list.splits wait_event.splits option.splits sum.splits prod.splits)

text \<open>
  A completion overwrites the buffer from its start and sets \<open>filled\<close> to the number of
  bytes it reports; what agreed below \<open>filled\<close> before agrees below the new \<open>filled\<close>.
\<close>

lemma receive_length: "length (receive old received) = length old"
  by (simp add: receive_def)

lemma receive_prefix:
  assumes "n \<le> length received"
  shows "take n (receive old received) = take n (take (length old) received)"
  using assms by (simp add: receive_def take_take min_def)

lemma receive_agrees:
  assumes "length xs = length old" "take n xs = take n old"
  shows "take n (receive xs received) = take n (receive old received)"
proof (rule nth_equalityI)
  show "length (take n (receive xs received)) = length (take n (receive old received))"
    using assms(1) by (simp add: receive_length)
next
  fix i assume "i < length (take n (receive xs received))"
  then have i: "i < n" "i < length old" using assms(1) by (simp_all add: receive_length)
  have "xs ! i = old ! i" using assms(2) i(1) by (rule nth_within_prefix)
  then show "take n (receive xs received) ! i = take n (receive old received) ! i"
    using i assms(1) by (simp add: receive_def nth_append)
qed

lemma callback_with_data:
  "mk2_read_bulk_callback (with_data dev xs) status len received =
     with_data (mk2_read_bulk_callback dev status len received) (receive xs received)"
  by (simp add: mk2_read_bulk_callback_def with_data_def Let_def log_call_def)

lemma callback_sane:
  assumes "buffer_sane dev" "requested_read (read_endp dev)"
    "completion_ok (length (data (buffer (read_endp dev)))) (Completion status len received)"
  shows "buffer_sane (mk2_read_bulk_callback dev status len received)"
    "\<not> requested_read (read_endp (mk2_read_bulk_callback dev status len received))"
    "length (data (buffer (read_endp (mk2_read_bulk_callback dev status len received)))) =
       length (data (buffer (read_endp dev)))"
  using assms
  by (simp_all add: buffer_sane_def mk2_read_bulk_callback_def Let_def log_call_def
        unat_ucast_index receive_length)

lemma callback_buffer:
  "data (buffer (read_endp (mk2_read_bulk_callback dev status len received))) =
     receive (data (buffer (read_endp dev))) received"
  "filled (buffer (read_endp (mk2_read_bulk_callback dev status len received))) =
     (if status = 0 then ucast len else filled (buffer (read_endp dev)))"
  by (simp_all add: mk2_read_bulk_callback_def Let_def log_call_def)

lemma callback_agrees:
  assumes "agrees dev xs" "unat len \<le> length received"
  shows "agrees (mk2_read_bulk_callback dev status len received) (receive xs received)"
proof -
  have len: "length xs = length (data (buffer (read_endp dev)))"
    and pre: "take (unat (filled (buffer (read_endp dev)))) xs =
       take (unat (filled (buffer (read_endp dev)))) (data (buffer (read_endp dev)))"
    using assms(1) by (simp_all add: agrees_def)
  have "take n (receive xs received) = take n (receive (data (buffer (read_endp dev))) received)"
    if "n = unat (filled (buffer (read_endp (mk2_read_bulk_callback dev status len received))))"
    for n
  proof (cases "status = 0")
    case True
    then have "n \<le> length received"
      using that assms(2) by (simp add: callback_buffer unat_ucast_index)
    then show ?thesis by (simp only: receive_prefix len)
  next
    case False
    then have "n = unat (filled (buffer (read_endp dev)))"
      using that by (simp add: callback_buffer)
    then show ?thesis using receive_agrees [OF len pre] by simp
  qed
  then show ?thesis
    unfolding agrees_def callback_buffer(1) using len by (simp add: receive_length)
qed

lemma read_wait_with_data:
  assumes "buffer_sane d" "agrees d xs"
    "list_all (completion_ok (length (data (buffer (read_endp d))))) waits"
  shows "case read_wait env d waits of
           None \<Rightarrow> read_wait env (with_data d xs) waits = None
         | Some (Inl rv) \<Rightarrow> read_wait env (with_data d xs) waits = Some (Inl rv)
         | Some (Inr (d', ws)) \<Rightarrow>
             (\<exists>xs'. read_wait env (with_data d xs) waits = Some (Inr (with_data d' xs', ws)) \<and>
                    agrees d' xs') \<and>
             buffer_sane d' \<and> \<not> requested_read (read_endp d') \<and>
             length (data (buffer (read_endp d'))) = length (data (buffer (read_endp d))) \<and>
             list_all (completion_ok (length (data (buffer (read_endp d))))) ws \<and>
             2 * length ws < 2 * length waits + (if requested_read (read_endp d) then 0 else 1)"
proof (cases "requested_read (read_endp d)")
  case False
  then show ?thesis
    using assms by (auto simp: read_wait_def with_data_def)
next
  case rq: True
  show ?thesis
  proof (cases "r_nonblock env")
    case True
    then show ?thesis using rq by (simp add: read_wait_def with_data_def)
  next
    case False
    show ?thesis
    proof (cases waits)
      case Nil
      then show ?thesis using rq False by (simp add: read_wait_def with_data_def)
    next
      case (Cons w ws)
      show ?thesis
      proof (cases w)
        case Signal
        then show ?thesis using rq False Cons by (simp add: read_wait_def with_data_def)
      next
        case (Completion status len received)
        have ok: "completion_ok (length (data (buffer (read_endp d)))) (Completion status len received)"
          "list_all (completion_ok (length (data (buffer (read_endp d))))) ws"
          using assms(3) Cons Completion by simp_all
        have rq': "requested_read (read_endp (with_data d xs))"
          using rq by (simp add: with_data_def)
        have "read_wait env d waits =
                Some (Inr (mk2_read_bulk_callback d status len received, ws))"
          "read_wait env (with_data d xs) waits =
                Some (Inr (with_data (mk2_read_bulk_callback d status len received)
                             (receive xs received), ws))"
          using rq rq' False Cons Completion
          by (simp_all add: read_wait_def callback_with_data)
        moreover have "agrees (mk2_read_bulk_callback d status len received) (receive xs received)"
          using assms(2) ok(1) by (intro callback_agrees) simp_all
        ultimately show ?thesis
          using callback_sane [OF assms(1) rq ok(1)] ok(2) Cons rq by auto
      qed
    qed
  qed
qed

text \<open>
  \<open>mk2_request_read\<close> does not touch the bytes of the buffer, and logs its submission.
\<close>

lemma request_with_data:
  "mk2_request_read (with_data dev xs) c sr =
     (fst (mk2_request_read dev c sr), with_data (snd (mk2_request_read dev c sr)) xs)"
  by (simp add: mk2_request_read_def with_data_def Let_def log_call_def)

lemma request_buffer:
  "data (buffer (read_endp (snd (mk2_request_read dev c sr)))) = data (buffer (read_endp dev))"
  "kernel_log (snd (mk2_request_read dev c sr)) =
     kernel_log dev @ SubmitRead sr # (if sr < 0 then [DevErr] else [])"
  "fst (mk2_request_read dev c sr) = (if sr < 0 then (if sr = - ENOMEM then sr else - EIO) else sr)"
  by (simp_all add: mk2_request_read_def Let_def log_call_def)

lemma request_sane:
  assumes "length (data (buffer (read_endp dev))) < 2 ^ 31"
  shows "buffer_sane (snd (mk2_request_read dev c sr))"
  using assms by (simp add: buffer_sane_def mk2_request_read_effect request_buffer)

lemma request_agrees:
  assumes "length xs = length (data (buffer (read_endp dev)))"
  shows "agrees (snd (mk2_request_read dev c sr)) xs"
  using assms by (simp add: agrees_def mk2_request_read_effect request_buffer)

lemma with_data_fields:
  "state (with_data d xs) = state d"
  "read_errors (read_endp (with_data d xs)) = read_errors (read_endp d)"
  "requested_read (read_endp (with_data d xs)) = requested_read (read_endp d)"
  "filled (buffer (read_endp (with_data d xs))) = filled (buffer (read_endp d))"
  "copied (buffer (read_endp (with_data d xs))) = copied (buffer (read_endp d))"
  "buffer (read_endp (with_data d xs)) = (buffer (read_endp d))\<lparr>data := xs\<rparr>"
  "(with_data d xs)\<lparr>read_endp := (read_endp (with_data d xs))\<lparr>read_errors := e\<rparr>\<rparr> =
     with_data (d\<lparr>read_endp := (read_endp d)\<lparr>read_errors := e\<rparr>\<rparr>) xs"
  "(with_data d xs)\<lparr>read_endp := (read_endp (with_data d xs))\<lparr>buffer := b\<lparr>data := xs\<rparr>\<rparr>\<rparr> =
     with_data (d\<lparr>read_endp := (read_endp d)\<lparr>buffer := b\<rparr>\<rparr>) xs"
  by (simp_all add: with_data_def)

lemma read_drain_with_data:
  assumes sane: "buffer_sane d" and ag: "agrees d xs"
  shows "read_drain env uw count (with_data d xs) k =
           map_sum (map_outcome (\<lambda>(rv, d', out). (rv, with_data d' xs, out)))
             (\<lambda>d'. with_data d' xs) (read_drain env uw count d k)"
proof -
  have p: "parse_buffered_data ((buffer (read_endp d))\<lparr>data := xs\<rparr>) uw count =
           map_option (map_sum id (redata xs)) (parse_buffered_data (buffer (read_endp d)) uw count)"
    using sane ag by (intro parse_buffered_data_prefix) (simp_all add: buffer_sane_def agrees_def)
  show ?thesis
  proof (cases "parse_buffered_data (buffer (read_endp d)) uw count")
    case None
    then show ?thesis
      by (simp add: read_drain_def Let_def with_data_fields p request_with_data
            split: prod.splits)
  next
    case (Some a)
    show ?thesis
    proof (cases a)
      case (Inl c)
      then show ?thesis using Some
        by (simp add: read_drain_def Let_def with_data_fields p request_with_data
              split: prod.splits)
    next
      case (Inr r)
      then show ?thesis using Some
        by (simp add: read_drain_def Let_def with_data_fields p request_with_data redata_def
              split: prod.splits)
    qed
  qed
qed

lemma read_drain_sane:
  assumes sane: "buffer_sane d" and nrq: "\<not> requested_read (read_endp d)"
    and c: "count \<noteq> 0"
    and res: "read_drain env uw count d k = Inl (Returns (rv, d', out)) \<or>
              read_drain env uw count d k = Inr d' \<and> requested_read (read_endp d')"
  shows "buffer_sane d' \<and>
         length (data (buffer (read_endp d'))) = length (data (buffer (read_endp d))) \<and>
         (agrees d xs \<longrightarrow> agrees d' xs)"
proof -
  let ?b = "buffer (read_endp d)"
  have len: "length (data ?b) < 2 ^ 31" using sane by (simp add: buffer_sane_def)
  have rq: "buffer_sane (snd (mk2_request_read e c' sr)) \<and>
            length (data (buffer (read_endp (snd (mk2_request_read e c' sr))))) = length (data ?b) \<and>
            (agrees d xs \<longrightarrow> agrees (snd (mk2_request_read e c' sr)) xs)"
    if "data (buffer (read_endp e)) = data ?b" for e c' sr
    using that len by (simp add: request_sane request_buffer agrees_def mk2_request_read_effect)
  show ?thesis
  proof (cases "read_errors (read_endp d) < 0")
    case True
    then have "d' = d\<lparr>read_endp := (read_endp d)\<lparr>read_errors := 0\<rparr>\<rparr>"
      using res by (auto simp: read_drain_def Let_def)
    then show ?thesis using sane by (simp add: buffer_sane_def agrees_def)
  next
    case noerr: False
    show ?thesis
    proof (cases "filled ?b - copied ?b = 0")
      case True
      then have "d' = snd (mk2_request_read d count (r_submit_ret env k))"
        using res noerr by (auto simp: read_drain_def split: prod.splits if_splits)
      then show ?thesis using rq [of d] by simp
    next
      case False
      then have "filled ?b \<noteq> copied ?b" by simp
      then have lt: "unat (copied ?b) < unat (filled ?b)"
        using sane by (simp add: buffer_sane_def word_unat_eq_iff)
      have "0 < unat count" using c by (simp add: unat_gt_0)
      from decode_step_advance [OF lt _ _ this, of uw]
      obtain r where r: "parse_buffered_data ?b uw count = Some (Inr r)"
        "unat (copied (buffer_after r)) \<le> unat (filled ?b)"
        "filled (buffer_after r) = filled ?b" "data (buffer_after r) = data ?b"
        using sane by (auto simp: buffer_sane_def)
      let ?e = "d\<lparr>read_endp := (read_endp d)\<lparr>buffer := buffer_after r\<rparr>\<rparr>"
      have e: "buffer_sane ?e"
        "length (data (buffer (read_endp ?e))) = length (data ?b)" "agrees d xs \<longrightarrow> agrees ?e xs"
        using sane nrq r by (simp_all add: buffer_sane_def agrees_def)
      have "d' = (if word_of_int (ret r) < count
                  then snd (mk2_request_read ?e (compute_stuffed_size (count - word_of_int (ret r)))
                         (r_submit_ret env k))
                  else ?e)"
        using res noerr False r(1) by (auto simp: read_drain_def Let_def)
      then show ?thesis using rq [of ?e] e r(4) by simp
    qed
  qed
qed

lemma read_drain_again:
  "read_drain env uw count d k = Inr d' \<Longrightarrow> requested_read (read_endp d')"
  by (auto simp: read_drain_def Let_def mk2_request_read_effect
        dest!: mk2_request_read_requested split: if_splits option.splits sum.splits prod.splits)

text \<open>
  By induction over the passes of the loop: a read call does not depend on the stale
  bytes, and a call that returns a count below the one asked for has gone through the
  decoder and then through \<open>mk2_request_read\<close>.
\<close>

lemma read_retry_with_data:
  assumes "buffer_sane d" "agrees d xs"
    "list_all (completion_ok (length (data (buffer (read_endp d))))) waits" "count \<noteq> 0"
  shows "stale_free (length (data (buffer (read_endp d))))
           (mk2_read_retry env uw count d waits k)
           (mk2_read_retry env uw count (with_data d xs) waits k)"
  using assms(1,2,3)
proof (induction "2 * length waits + (if requested_read (read_endp d) then 0 else (1::nat))"
         arbitrary: d xs waits k rule: less_induct)
  case less
  note w = read_wait_with_data [OF less.prems(1,2,3), of env]
  show ?case
  proof (cases "read_wait env d waits")
    case None
    then show ?thesis using w
      by (simp add: mk2_read_retry_round [of _ _ _ _ waits] stale_free_def)
  next
    case (Some a)
    show ?thesis
    proof (cases a)
      case (Inl rv)
      then show ?thesis using w Some less.prems(1,2)
        by (auto simp: mk2_read_retry_round [of _ _ _ _ waits] stale_free_def)
    next
      case (Inr p)
      obtain d1 ws where p: "p = (d1, ws)" by (cases p)
      from w Some Inr p obtain xs1 where
        w2: "read_wait env (with_data d xs) waits = Some (Inr (with_data d1 xs1, ws))"
        and d1: "agrees d1 xs1" "buffer_sane d1" "\<not> requested_read (read_endp d1)"
          "length (data (buffer (read_endp d1))) = length (data (buffer (read_endp d)))"
          "list_all (completion_ok (length (data (buffer (read_endp d))))) ws"
          "2 * length ws < 2 * length waits + (if requested_read (read_endp d) then 0 else 1)"
        by auto
      note dr = read_drain_with_data [OF d1(2,1), of env uw count k]
      have l: "mk2_read_retry env uw count d waits k =
          (case read_drain env uw count d1 k of
             Inl res \<Rightarrow> res
           | Inr d' \<Rightarrow> mk2_read_retry env uw count d' ws (k + 1))"
        using Some Inr p by (simp add: mk2_read_retry_round [of _ _ _ _ waits])
      have r: "mk2_read_retry env uw count (with_data d xs) waits k =
          (case read_drain env uw count (with_data d1 xs1) k of
             Inl res \<Rightarrow> res
           | Inr d' \<Rightarrow> mk2_read_retry env uw count d' ws (k + 1))"
        using w2 by (simp add: mk2_read_retry_round [of _ _ _ _ waits])
      show ?thesis
      proof (cases "read_drain env uw count d1 k")
        case (Inl res)
        show ?thesis
        proof (cases res)
          case (Returns t)
          obtain rv d' out where t: "t = (rv, d', out)" by (cases t)
          from read_drain_sane [OF d1(2,3) assms(4), of env uw k rv d' out xs1] Inl Returns t d1(1)
          have "buffer_sane d'" "agrees d' xs1"
            "length (data (buffer (read_endp d'))) = length (data (buffer (read_endp d1)))"
            by simp_all
          then show ?thesis
            using Inl Returns t d1(4) by (auto simp: l r dr stale_free_def)
        next
          case (Crashes c)
          then show ?thesis using Inl by (simp add: l r dr stale_free_def)
        next
          case Hangs
          then show ?thesis using Inl by (simp add: l r dr stale_free_def)
        qed
      next
        case (Inr d2)
        then have rq: "requested_read (read_endp d2)" by (rule read_drain_again)
        from read_drain_sane [OF d1(2,3) assms(4), of env uw k _ d2 _ xs1] Inr rq d1(1)
        have d2: "buffer_sane d2" "agrees d2 xs1"
          "length (data (buffer (read_endp d2))) = length (data (buffer (read_endp d1)))"
          by simp_all
        have m: "2 * length ws + (if requested_read (read_endp d2) then 0 else (1::nat))
                 < 2 * length waits + (if requested_read (read_endp d) then 0 else 1)"
          using rq d1(6) by simp
        have ok: "list_all (completion_ok (length (data (buffer (read_endp d2))))) ws"
          using d1(5,4) d2(3) by simp
        from less.hyps [OF m d2(1,2) ok, of "k + 1"]
        show ?thesis using Inr d2(3) d1(4) by (simp add: l r dr)
      qed
    qed
  qed
qed

lemma read_wait_measure:
  assumes "read_wait env d waits = Some (Inr (d1, ws))"
  shows "2 * length ws < 2 * length waits + (if requested_read (read_endp d) then 0 else (1::nat))"
  using assms
  by (auto simp: read_wait_def split: if_splits list.splits wait_event.splits)

lemma read_wait_error:
  assumes "read_wait env d waits = Some (Inl rv)"
  shows "rv < 0"
  using assms
  by (auto simp: read_wait_def errno_defs split: if_splits list.splits wait_event.splits)

lemma read_drain_prefetch:
  assumes "read_drain env uw count d k = Inl (Returns (rv, dev', out))"
    "0 \<le> rv" "word_of_int rv < count"
  shows "\<exists>r. parse_buffered_data (buffer (read_endp d)) uw count = Some (Inr r) \<and>
             rv = ret r \<and> out = delivered r \<and>
             dev' = snd (mk2_request_read (d\<lparr>read_endp := (read_endp d)\<lparr>buffer := buffer_after r\<rparr>\<rparr>)
                      (compute_stuffed_size (count - word_of_int rv)) (r_submit_ret env k))"
  using assms
  by (auto simp: read_drain_def Let_def errno_defs
        split: if_splits option.splits sum.splits prod.splits)

lemma read_retry_prefetch:
  assumes "mk2_read_retry env uw count dev waits k = Returns (rv, dev', out)"
    "0 \<le> rv" "word_of_int rv < count"
  shows "\<exists>d r j. parse_buffered_data (buffer (read_endp d)) uw count = Some (Inr r) \<and>
             rv = ret r \<and> out = delivered r \<and>
             dev' = snd (mk2_request_read (d\<lparr>read_endp := (read_endp d)\<lparr>buffer := buffer_after r\<rparr>\<rparr>)
                      (compute_stuffed_size (count - word_of_int rv)) (r_submit_ret env j))"
  using assms(1)
proof (induction "2 * length waits + (if requested_read (read_endp dev) then 0 else (1::nat))"
         arbitrary: dev waits k rule: less_induct)
  case less
  show ?case
  proof (cases "read_wait env dev waits")
    case None
    then show ?thesis using less.prems
      by (simp add: mk2_read_retry_round [of _ _ _ _ waits])
  next
    case (Some a)
    show ?thesis
    proof (cases a)
      case (Inl e)
      then have "e < 0" using Some read_wait_error by simp
      then show ?thesis using less.prems Some Inl assms(2)
        by (simp add: mk2_read_retry_round [of _ _ _ _ waits])
    next
      case (Inr p)
      obtain d1 ws where p: "p = (d1, ws)" by (cases p)
      have l: "mk2_read_retry env uw count dev waits k =
          (case read_drain env uw count d1 k of
             Inl res \<Rightarrow> res
           | Inr d' \<Rightarrow> mk2_read_retry env uw count d' ws (k + 1))"
        using Some Inr p by (simp add: mk2_read_retry_round [of _ _ _ _ waits])
      show ?thesis
      proof (cases "read_drain env uw count d1 k")
        case (Inl res)
        then have "read_drain env uw count d1 k = Inl (Returns (rv, dev', out))"
          using less.prems l by simp
        from read_drain_prefetch [OF this assms(2,3)] show ?thesis by blast
      next
        case (Inr d2)
        then have rq: "requested_read (read_endp d2)" by (rule read_drain_again)
        have m: "2 * length ws + (if requested_read (read_endp d2) then 0 else (1::nat))
                 < 2 * length waits + (if requested_read (read_endp dev) then 0 else 1)"
          using rq read_wait_measure [of env dev waits d1 ws] Some \<open>a = Inr p\<close> p by simp
        have "mk2_read_retry env uw count d2 ws (k + 1) = Returns (rv, dev', out)"
          using less.prems l Inr by simp
        from less.hyps [OF m this] show ?thesis .
      qed
    qed
  qed
qed

lemma mk2_read_with_data:
  assumes "buffer_sane d" "agrees d xs"
    "list_all (completion_ok (length (data (buffer (read_endp d))))) waits"
  shows "stale_free (length (data (buffer (read_endp d))))
           (mk2_read d env waits uw count) (mk2_read (with_data d xs) env waits uw count)"
proof (cases "count < MK2_SYSEX_PACKET_SIZE \<or> lock_ret env < 0 \<or> disconnected (state d)")
  case True
  then show ?thesis
    using assms(1,2) by (auto simp: mk2_read_def Let_def stale_free_def with_data_fields)
next
  case False
  then have "count \<noteq> 0" by (auto simp: mk2_consts)
  from read_retry_with_data [OF assms this, of env uw 0] False
  show ?thesis by (simp add: mk2_read_def Let_def with_data_fields)
qed

lemma read_calls_with_data:
  assumes "buffer_sane d" "agrees d xs"
    "\<forall>(env, waits, uw, count) \<in> set calls.
       \<forall>w \<in> set waits. completion_ok (length (data (buffer (read_endp d)))) w"
  shows "read_calls (with_data d xs) calls = read_calls d calls"
  using assms
proof (induction calls arbitrary: d xs)
  case Nil
  show ?case by simp
next
  case (Cons call calls)
  obtain env waits uw count where call: "call = (env, waits, uw, count)" by (cases call)
  have ok: "list_all (completion_ok (length (data (buffer (read_endp d))))) waits"
    using Cons.prems(3) call by (simp add: list_all_iff)
  note s = mk2_read_with_data [OF Cons.prems(1,2) ok, of env uw count]
  show ?case
  proof (cases "mk2_read d env waits uw count")
    case (Returns t)
    obtain rv d' out where t: "t = (rv, d', out)" by (cases t)
    from s Returns t obtain xs' where
      r: "mk2_read (with_data d xs) env waits uw count = Returns (rv, with_data d' xs', out)"
      and d': "agrees d' xs'" "buffer_sane d'"
        "length (data (buffer (read_endp d'))) = length (data (buffer (read_endp d)))"
      by (auto simp: stale_free_def)
    have "read_calls (with_data d' xs') calls = read_calls d' calls"
      using Cons.prems(3) d'(3) by (intro Cons.IH [OF d'(2,1)]) simp
    then show ?thesis using Returns t r call by simp
  next
    case (Crashes c)
    then show ?thesis using s call by (simp add: stale_free_def)
  next
    case Hangs
    then show ?thesis using s call by (simp add: stale_free_def)
  qed
qed

lemma mk2_read_prefetch:
  assumes "mk2_read dev env waits uw count = Returns (rv, dev', out)"
    "0 \<le> rv" "word_of_int rv < count"
  shows "\<exists>d r j. parse_buffered_data (buffer (read_endp d)) uw count = Some (Inr r) \<and>
             rv = ret r \<and> out = delivered r \<and>
             dev' = snd (mk2_request_read (d\<lparr>read_endp := (read_endp d)\<lparr>buffer := buffer_after r\<rparr>\<rparr>)
                      (compute_stuffed_size (count - word_of_int rv)) (r_submit_ret env j))"
proof -
  have "mk2_read_retry env uw count dev waits 0 = Returns (rv, dev', out)"
    using assms(1,2) by (auto simp: mk2_read_def Let_def errno_defs split: if_splits)
  from read_retry_prefetch [OF this assms(2,3)] show ?thesis .
qed

text \<open>
  Claim C10. \<open>mk2_request_read\<close> leaves \<open>filled\<close> and \<open>copied\<close> at 0 and
  \<open>requested_read\<close> set unless the submission failed, and it submits one transfer.
  Whenever a read call returns a count that is not negative and is below the count asked
  for, on every path through \<open>mk2_read\<close> (also when it first submits a transfer and
  sleeps), that count and the delivered bytes are what \<open>parse_buffered_data\<close> decoded, and
  the device is what \<open>mk2_request_read\<close> made of the buffer the decoder left: \<open>filled\<close> and
  \<open>copied\<close> are 0, whatever packets lay between them. Those bytes are then out of reach:
  for every sequence of later read calls, whose completions report no more bytes than
  the device wrote into the buffer, each call returns and delivers the same whatever
  bytes the memory of the buffer holds.
\<close>

theorem prefetch_discards_leftover:
  "filled (buffer (read_endp (snd (mk2_request_read dev c sr)))) = 0 \<and>
   copied (buffer (read_endp (snd (mk2_request_read dev c sr)))) = 0 \<and>
   requested_read (read_endp (snd (mk2_request_read dev c sr))) = (\<not> sr < 0) \<and>
   kernel_log (snd (mk2_request_read dev c sr)) =
     kernel_log dev @ SubmitRead sr # (if sr < 0 then [DevErr] else []) \<and>
   (mk2_read dev env waits uw count = Returns (rv, dev', out) \<and>
    0 \<le> rv \<and> word_of_int rv < count
    \<longrightarrow> (\<exists>d r j. parse_buffered_data (buffer (read_endp d)) uw count = Some (Inr r) \<and>
             rv = ret r \<and> out = delivered r \<and>
             dev' = snd (mk2_request_read
                          (d\<lparr>read_endp := (read_endp d)\<lparr>buffer := buffer_after r\<rparr>\<rparr>)
                          (compute_stuffed_size (count - word_of_int rv))
                          (r_submit_ret env j))) \<and>
         filled (buffer (read_endp dev')) = 0 \<and>
         copied (buffer (read_endp dev')) = 0 \<and>
         (length (data (buffer (read_endp dev'))) < 2 ^ 31 \<and>
          length stale = length (data (buffer (read_endp dev'))) \<and>
          (\<forall>(env', waits', uw', count') \<in> set calls.
             \<forall>w \<in> set waits'. completion_ok (length stale) w)
          \<longrightarrow> read_calls (with_data dev' stale) calls = read_calls dev' calls))"
proof (intro conjI impI)
  assume a: "mk2_read dev env waits uw count = Returns (rv, dev', out) \<and>
    0 \<le> rv \<and> word_of_int rv < count"
  then obtain d r j where r: "parse_buffered_data (buffer (read_endp d)) uw count = Some (Inr r)"
    "rv = ret r" "out = delivered r"
    "dev' = snd (mk2_request_read (d\<lparr>read_endp := (read_endp d)\<lparr>buffer := buffer_after r\<rparr>\<rparr>)
                      (compute_stuffed_size (count - word_of_int rv)) (r_submit_ret env j))"
    using mk2_read_prefetch [of dev env waits uw count rv dev' out] by blast
  then show "\<exists>d r j. parse_buffered_data (buffer (read_endp d)) uw count = Some (Inr r) \<and>
             rv = ret r \<and> out = delivered r \<and>
             dev' = snd (mk2_request_read
                          (d\<lparr>read_endp := (read_endp d)\<lparr>buffer := buffer_after r\<rparr>\<rparr>)
                          (compute_stuffed_size (count - word_of_int rv))
                          (r_submit_ret env j))"
    by blast
  show z: "filled (buffer (read_endp dev')) = 0" "copied (buffer (read_endp dev')) = 0"
    unfolding r(4) by (simp_all add: mk2_request_read_effect)
  assume b: "length (data (buffer (read_endp dev'))) < 2 ^ 31 \<and>
          length stale = length (data (buffer (read_endp dev'))) \<and>
          (\<forall>(env', waits', uw', count') \<in> set calls.
             \<forall>w \<in> set waits'. completion_ok (length stale) w)"
  have "buffer_sane dev'" "agrees dev' stale"
    using z b by (simp_all add: buffer_sane_def agrees_def)
  then show "read_calls (with_data dev' stale) calls = read_calls dev' calls"
    using b by (intro read_calls_with_data) auto
qed (simp_all add: mk2_request_read_effect request_buffer)

text \<open>
  A read call that finds the buffer empty submits a transfer and sleeps; the transfer
  brings two packets, the call has room for one, and its prefetch drops the other.
\<close>

lemma read_after_sleep:
  "mk2_read (mk2_probe 8) read_env_ok [Completion 0 8 [4, 1, 2, 3, 4, 4, 5, 6]] 4 4 =
     Returns (3,
       \<lparr>read_endp =
          \<lparr>buffer = \<lparr>data = [4, 1, 2, 3, 4, 4, 5, 6], bufsize = 8, filled = 0, copied = 0\<rparr>,
           read_errors = 0, requested_read = True\<rparr>,
        write_endp = \<lparr>limit_sem = 8, write_errors = 0\<rparr>,
        state = \<lparr>disconnected = False\<rparr>,
        kernel_log = [SubmitRead 0, SubmitRead 0]\<rparr>,
       [1, 2, 3])"
  by (simp add: dev_eval codec_eval read_env_ok_def)

theorem prefetch_discards_leftover_witness:
  "\<exists>dev'. mk2_read (mk2_probe 8) read_env_ok [Completion 0 8 [4, 1, 2, 3, 4, 4, 5, 6]] 4 4 =
            Returns (3, dev', [1, 2, 3]) \<and>
          filled (buffer (read_endp dev')) = 0 \<and>
          copied (buffer (read_endp dev')) = 0 \<and>
          read_calls (with_data dev' [0, 0, 0, 0, 0, 0, 0, 0])
            [(read_env_ok, [Completion 0 4 [4, 7, 8, 9]], 3, 3)] =
          read_calls dev' [(read_env_ok, [Completion 0 4 [4, 7, 8, 9]], 3, 3)]"
  using read_after_sleep
    prefetch_discards_leftover [where dev = "mk2_probe 8" and env = read_env_ok
      and waits = "[Completion 0 8 [4, 1, 2, 3, 4, 4, 5, 6]]" and uw = 4 and count = 4
      and rv = 3 and out = "[1, 2, 3]" and stale = "[0, 0, 0, 0, 0, 0, 0, 0]"
      and calls = "[(read_env_ok, [Completion 0 4 [4, 7, 8, 9]], 3, 3)]"
      and dev' = "\<lparr>read_endp =
          \<lparr>buffer = \<lparr>data = [4, 1, 2, 3, 4, 4, 5, 6], bufsize = 8, filled = 0, copied = 0\<rparr>,
           read_errors = 0, requested_read = True\<rparr>,
        write_endp = \<lparr>limit_sem = 8, write_errors = 0\<rparr>,
        state = \<lparr>disconnected = False\<rparr>,
        kernel_log = [SubmitRead 0, SubmitRead 0]\<rparr>"]
  by simp

text \<open>The read call after it delivers the next transfer, and nothing of the dropped packet.\<close>

lemma later_read_is_fresh:
  "read_calls
     \<lparr>read_endp =
          \<lparr>buffer = \<lparr>data = [4, 1, 2, 3, 4, 4, 5, 6], bufsize = 8, filled = 0, copied = 0\<rparr>,
           read_errors = 0, requested_read = True\<rparr>,
        write_endp = \<lparr>limit_sem = 8, write_errors = 0\<rparr>,
        state = \<lparr>disconnected = False\<rparr>,
        kernel_log = [SubmitRead 0, SubmitRead 0]\<rparr>
     [(read_env_ok, [Completion 0 4 [4, 7, 8, 9]], 3, 3)] = Returns [(3, [7, 8, 9])]"
  by (simp add: dev_eval codec_eval read_env_ok_def)

lemma dev_with_frame_8:
  "dev_with_frame [a, b, c, d, e, f, g, h] =
     \<lparr>read_endp =
        \<lparr>buffer = \<lparr>data = [a, b, c, d, e, f, g, h], bufsize = 8, filled = 8, copied = 0\<rparr>,
         read_errors = 0, requested_read = False\<rparr>,
      write_endp = \<lparr>limit_sem = 8, write_errors = 0\<rparr>,
      state = \<lparr>disconnected = False\<rparr>,
      kernel_log = []\<rparr>"
  by (simp add: dev_with_frame_def dev_eval)

section \<open>Stuffing followed by destuffing\<close>

text \<open>One packet that is decoded in full.\<close>

lemma parse_loop_step:
  assumes c0: "copied rb = 0"
    and geom: "unat leftover \<le> length (data rb)" "unat leftover < 2 ^ 31"
    and i: "unat (rb_index s) + 4 \<le> unat leftover"
    and b: "batch_size_of (data rb ! unat (rb_index s)) = Some b"
    and cap: "unat b \<le> unat (rem_size s)" "length (user_out s) + unat b \<le> uw"
  shows "\<exists>s'. parse_loop rb leftover uw s = parse_loop rb leftover uw s' \<and>
           unat (rb_index s') = unat (rb_index s) + 4 \<and>
           unat (rem_size s') = unat (rem_size s) - unat b \<and>
           unat (parse_retval s') = (unat (parse_retval s) + unat b) mod 2 ^ 32 \<and>
           user_out s' = user_out s @ take (unat b) (drop (unat (rb_index s) + 1) (data rb))"
proof -
  define i where "i = unat (rb_index s)"
  have lt: "i < unat leftover" using i by (simp add: i_def)
  have cond: "ucast (rb_index s) < leftover"
    using lt by (simp add: ucast_index_less i_def)
  have small: "i + 4 < 2 ^ 32" using i geom by (simp add: i_def)
  have inb: "\<not> length (data rb) \<le> unat (rb_index s)"
    using lt geom by (simp add: i_def)
  have bnd: "\<not> leftover < ucast (rb_index s + MK2_STUFFED_PACKET_SIZE)"
    using small i by (simp add: boundary_check i_def)
  have src: "unat (copied rb + ucast (rb_index s) + 1) = i + 1"
    using source_index [of "copied rb" "rb_index s"] small c0 by (simp add: i_def)
  have next_index: "unat (rb_index s + MK2_STUFFED_PACKET_SIZE) = i + 4"
    using small by (simp add: index_plus4 i_def mk2_consts)
  have fits: "\<not> rem_size s < b"
    using cap(1) by (simp add: word_less_nat_alt)
  have sub: "unat (rem_size s - b) = unat (rem_size s) - unat b"
    using cap(1) by (simp add: unat_sub word_le_nat_alt)
  have b3: "unat b \<le> 3" using b by (rule batch_size_of_le)
  show ?thesis
  proof (cases "unat b = 0")
    case True
    define s' where "s' = s\<lparr>accesses := accesses s @ [StatusRead i],
                           rb_index := rb_index s + MK2_STUFFED_PACKET_SIZE\<rparr>"
    have "parse_loop rb leftover uw s = parse_loop rb leftover uw s'"
      using cond inb b fits bnd True
      by (subst parse_loop.simps) (simp add: parse_packet_def i_def s'_def)
    moreover have "unat (rb_index s') = i + 4" "unat (rem_size s') = unat (rem_size s) - unat b"
      "unat (parse_retval s') = (unat (parse_retval s) + unat b) mod 2 ^ 32"
      "user_out s' = user_out s @ take (unat b) (drop (i + 1) (data rb))"
      using True next_index unsigned_less [of "parse_retval s", where 'a = nat]
      by (simp_all add: s'_def)
    ultimately show ?thesis unfolding i_def by blast
  next
    case False
    define n where "n = unat b"
    have room: "\<not> length (data rb) < i + 1 + n"
      using i geom b3 by (simp add: i_def n_def)
    have ok: "\<not> uw < length (user_out s) + n"
      using cap(2) by (simp add: n_def)
    define s' where "s' = s\<lparr>accesses := accesses s @ [StatusRead i, PayloadRead (i + 1) n],
                           parse_retval := parse_retval s + b,
                           rb_index := rb_index s + MK2_STUFFED_PACKET_SIZE,
                           user_out := user_out s @ take n (drop (i + 1) (data rb)),
                           rem_size := rem_size s - b\<rparr>"
    have "parse_loop rb leftover uw s = parse_loop rb leftover uw s'"
      using cond inb b fits bnd False src room ok
      by (subst parse_loop.simps)
         (simp add: parse_packet_def i_def [symmetric] Let_def s'_def n_def [symmetric])
    moreover have "unat (rb_index s') = i + 4" "unat (rem_size s') = unat (rem_size s) - unat b"
      "unat (parse_retval s') = (unat (parse_retval s) + unat b) mod 2 ^ 32"
      "user_out s' = user_out s @ take (unat b) (drop (i + 1) (data rb))"
      using next_index sub by (simp_all add: s'_def n_def unat_word_ariths)
    ultimately show ?thesis unfolding i_def by blast
  qed
qed

lemma take_drop_3:
  assumes "k + 3 \<le> length xs"
  shows "take 3 (drop k xs) = [xs ! k, xs ! (k + 1), xs ! (k + 2)]"
proof (rule nth_equalityI)
  show "length (take 3 (drop k xs)) = length [xs ! k, xs ! (k + 1), xs ! (k + 2)]"
    using assms by simp
next
  fix i assume "i < length (take 3 (drop k xs))"
  then have "i < 3" by simp
  then consider "i = 0" | "i = 1" | "i = 2" by linarith
  then show "take 3 (drop k xs) ! i = [xs ! k, xs ! (k + 1), xs ! (k + 2)] ! i"
    using assms by cases simp_all
qed

lemma batch_size_of_codes:
  "batch_size_of MK2_SYSEX_MOREDATA = Some 3"
  "batch_size_of MK2_SYSEX_DATAEND1 = Some 1"
  "batch_size_of MK2_SYSEX_DATAEND2 = Some 2"
  "batch_size_of MK2_SYSEX_DATAEND3 = Some 0"
  by (simp_all add: batch_size_of_def mk2_consts)

text \<open>A run of \<open>MOREDATA\<close> packets, each decoded in full.\<close>

lemma parse_loop_full_packets:
  assumes c0: "copied rb = 0"
    and geom: "unat leftover \<le> length (data rb)" "unat leftover < 2 ^ 31"
    and pk: "packets_at (data rb) 0 payload 0 n" "4 * n \<le> unat leftover" "3 * n \<le> length payload"
    and s: "unat (rb_index s) = 4 * j" "j + k = n"
      "3 * k \<le> unat (rem_size s)" "length (user_out s) + 3 * k \<le> uw"
      "user_out s = take (3 * j) payload" "unat (parse_retval s) = 3 * j"
  shows "\<exists>s'. parse_loop rb leftover uw s = parse_loop rb leftover uw s' \<and>
           unat (rb_index s') = 4 * n \<and>
           unat (rem_size s') = unat (rem_size s) - 3 * k \<and>
           unat (parse_retval s') = 3 * n \<and>
           user_out s' = take (3 * n) payload"
  using s
proof (induction k arbitrary: s j)
  case 0
  then show ?case by auto
next
  case (Suc k)
  have j: "j < n" using Suc.prems(2) by simp
  have st: "data rb ! unat (rb_index s) = MK2_SYSEX_MOREDATA"
    using pk(1) j Suc.prems(1) by (simp add: packets_at_def)
  have b: "batch_size_of (data rb ! unat (rb_index s)) = Some 3"
    using st by (simp add: batch_size_of_codes)
  have i: "unat (rb_index s) + 4 \<le> unat leftover"
    using j pk(2) Suc.prems(1) by simp
  have cap: "unat (3 :: unsigned) \<le> unat (rem_size s)" "length (user_out s) + unat (3 :: unsigned) \<le> uw"
    using Suc.prems(3,4) by simp_all
  from parse_loop_step [OF c0 geom i b cap]
  obtain s1 where s1: "parse_loop rb leftover uw s = parse_loop rb leftover uw s1"
    "unat (rb_index s1) = unat (rb_index s) + 4"
    "unat (rem_size s1) = unat (rem_size s) - 3"
    "unat (parse_retval s1) = (unat (parse_retval s) + 3) mod 2 ^ 32"
    "user_out s1 = user_out s @ take 3 (drop (unat (rb_index s) + 1) (data rb))"
    by auto
  have blk: "take 3 (drop (4 * j + 1) (data rb)) =
      [payload ! (3 * j), payload ! (3 * j + 1), payload ! (3 * j + 2)]"
  proof -
    have "4 * j + 1 + 3 \<le> length (data rb)"
      using j pk(2) geom by simp
    from take_drop_3 [OF this]
    have t: "take 3 (drop (4 * j + 1) (data rb)) =
        [data rb ! (4 * j + 1), data rb ! (4 * j + 1 + 1), data rb ! (4 * j + 1 + 2)]" .
    have e: "4 * j + 1 + 1 = 4 * j + 2" "4 * j + 1 + 2 = 4 * j + 3" by simp_all
    have p: "data rb ! (4 * j + 1) = payload ! (3 * j)"
      "data rb ! (4 * j + 2) = payload ! (3 * j + 1)"
      "data rb ! (4 * j + 3) = payload ! (3 * j + 2)"
      using pk(1) j by (simp_all add: packets_at_def)
    show ?thesis
      by (simp only: t e p)
  qed
  have pl: "take (3 * Suc j) payload = take (3 * j) payload @
      [payload ! (3 * j), payload ! (3 * j + 1), payload ! (3 * j + 2)]"
  proof -
    have "3 * j + 3 \<le> length payload" using j pk(3) by simp
    then have "take (3 * j + 3) payload = take (3 * j) payload @ take 3 (drop (3 * j) payload)"
      by (simp add: take_add)
    also have "take 3 (drop (3 * j) payload) =
       [payload ! (3 * j), payload ! (3 * j + 1), payload ! (3 * j + 2)]"
      using \<open>3 * j + 3 \<le> length payload\<close> by (rule take_drop_3)
    finally show ?thesis by (simp add: add.commute)
  qed
  have small: "3 * j + 3 < 2 ^ 32"
    using j pk(2) geom by simp
  have s1': "unat (rb_index s1) = 4 * Suc j" "Suc j + k = n"
      "3 * k \<le> unat (rem_size s1)" "length (user_out s1) + 3 * k \<le> uw"
      "user_out s1 = take (3 * Suc j) payload" "unat (parse_retval s1) = 3 * Suc j"
    using s1 Suc.prems blk pl small by simp_all
  from Suc.IH [OF s1'] s1(1) s1(3) show ?case
    by auto
qed

lemma uint_below_sign:
  fixes w :: "32 word"
  assumes "unat w < 2 ^ 31"
  shows "uint w < 2 ^ 31"
proof -
  have "int (unat w) < int (2 ^ 31)"
    using assms by (simp only: of_nat_less_iff)
  then show ?thesis
    by (simp only: uint_nat [symmetric] of_nat_power of_nat_numeral)
qed

lemma sint_small:
  fixes w :: "32 word"
  assumes "unat w < 2 ^ 31"
  shows "sint w = int (unat w)"
proof -
  have lt: "uint w < 2 ^ 31" using assms by (rule uint_below_sign)
  have ge: "- (2 ^ 31) \<le> uint w"
  proof -
    have "- (2 ^ 31) \<le> (0 :: int)" by simp
    also have "0 \<le> uint w" by (rule uint_nonnegative)
    finally show ?thesis .
  qed
  have "signed_take_bit 31 (uint w) = uint w"
    using ge lt by (rule signed_take_bit_int_eq_self)
  then have "sint w = uint w"
    by (simp add: sint_uint)
  then show ?thesis
    by (simp only: uint_nat)
qed

lemma parse_loop_end:
  assumes "unat leftover \<le> unat (rb_index s)"
  shows "parse_loop rb leftover uw s = Some (LoopEnd s)"
  using assms by (subst parse_loop.simps) (simp add: ucast_index_less)

text \<open>
  Decoding, from \<open>copied = 0\<close>, a frame of \<open>n\<close> full packets and a last packet to which
  the decoder gives \<open>b\<close> payload bytes.
\<close>

lemma parse_frame:
  fixes user_size :: size_t
  assumes frame: "packets_at frame 0 payload 0 n" "length frame = 4 * n + 4"
      "batch_size_of (frame ! (4 * n)) = Some b"
    and pay: "3 * n \<le> length payload" "unat user_size = 3 * n + w" "unat b \<le> w"
      "unat user_size \<le> uw"
    and sz: "unat stuffed = 4 * n + 4" "4 * n + 4 < 2 ^ 31" "unat user_size < 2 ^ 31"
      "0 < unat user_size"
  shows "\<exists>r. parse_buffered_data \<lparr>data = frame, bufsize = stuffed, filled = stuffed, copied = 0\<rparr>
             uw user_size = Some (Inr r) \<and>
           ret r = int (3 * n + unat b) \<and>
           delivered r = take (3 * n) payload @ take (unat b) (drop (4 * n + 1) frame) \<and>
           copied (buffer_after r) = stuffed"
proof -
  define rb where "rb = \<lparr>data = frame, bufsize = stuffed, filled = stuffed, copied = 0\<rparr>"
  define s0 where "s0 = \<lparr>rb_index = 0, rem_size = ucast user_size :: unsigned, parse_retval = 0,
                user_out = [], accesses = []\<rparr>"
  have trunc: "unat (ucast user_size :: unsigned) = unat user_size"
    using sz(3) by (simp add: unsigned_ucast_eq take_bit_nat_eq_self)
  have c0: "copied rb = 0" by (simp add: rb_def)
  have geom: "unat stuffed \<le> length (data rb)" "unat stuffed < 2 ^ 31"
    using sz frame(2) by (simp_all add: rb_def)
  have pk: "packets_at (data rb) 0 payload 0 n" "4 * n \<le> unat stuffed"
    using frame(1) sz(1) by (simp_all add: rb_def)
  have s0: "unat (rb_index s0) = 4 * 0" "0 + n = n"
      "3 * n \<le> unat (rem_size s0)" "length (user_out s0) + 3 * n \<le> uw"
      "user_out s0 = take (3 * 0) payload" "unat (parse_retval s0) = 3 * 0"
    using pay trunc by (simp_all add: s0_def)
  from parse_loop_full_packets [OF c0 geom pk pay(1) s0]
  obtain s1 where s1: "parse_loop rb stuffed uw s0 = parse_loop rb stuffed uw s1"
    "unat (rb_index s1) = 4 * n" "unat (rem_size s1) = unat (rem_size s0) - 3 * n"
    "unat (parse_retval s1) = 3 * n" "user_out s1 = take (3 * n) payload"
    by blast
  have rem1: "unat (rem_size s1) = w"
    using s1(3) trunc pay(2) by (simp add: s0_def)
  have i: "unat (rb_index s1) + 4 \<le> unat stuffed"
    using s1(2) sz(1) by simp
  have b: "batch_size_of (data rb ! unat (rb_index s1)) = Some b"
    using frame(3) s1(2) by (simp add: rb_def)
  have cap: "unat b \<le> unat (rem_size s1)" "length (user_out s1) + unat b \<le> uw"
    using rem1 pay s1(5) by simp_all
  from parse_loop_step [OF c0 geom i b cap]
  obtain s2 where s2: "parse_loop rb stuffed uw s1 = parse_loop rb stuffed uw s2"
    "unat (rb_index s2) = unat (rb_index s1) + 4"
    "unat (parse_retval s2) = (unat (parse_retval s1) + unat b) mod 2 ^ 32"
    "user_out s2 = user_out s1 @ take (unat b) (drop (unat (rb_index s1) + 1) (data rb))"
    by blast
  have b3: "unat b \<le> 3" using frame(3) by (rule batch_size_of_le)
  have rv: "unat (parse_retval s2) = 3 * n + unat b"
    using s2(3) s1(4) sz(2) b3 by simp
  have fin: "parse_loop rb stuffed uw s0 = Some (LoopEnd s2)"
    using s1(1) s2(1) parse_loop_end [of stuffed s2 rb uw] s2(2) s1(2) sz(1) by simp
  have nz: "stuffed \<noteq> 0" "user_size \<noteq> 0"
    using sz(1,4) by (auto simp: unat_eq_0 [symmetric] simp del: unat_eq_0)
  have res: "parse_buffered_data rb uw user_size =
        Some (Inr \<lparr>ret = sint (parse_retval s2),
                   buffer_after = rb\<lparr>copied := copied rb + ucast (rb_index s2)\<rparr>,
                   delivered = user_out s2, reads = accesses s2\<rparr>)"
    using fin nz by (simp add: parse_buffered_data_def rb_def s0_def)
  have "unat (parse_retval s2) < 2 ^ 31"
    using rv sz(2) b3 by simp
  then have ret: "sint (parse_retval s2) = int (3 * n + unat b)"
    using rv by (simp add: sint_small)
  have "unat (ucast (rb_index s2) :: size_t) = unat stuffed"
    using s2(2) s1(2) sz(1) by (simp add: unat_ucast_index)
  then have cp: "(ucast (rb_index s2) :: size_t) = stuffed"
    by (simp only: word_unat_eq_iff)
  show ?thesis
    unfolding rb_def [symmetric] res
    using ret cp s2(4) s1(5) s1(2) by (simp add: rb_def)
qed

lemma take_drop_1:
  assumes "k < length xs"
  shows "take 1 (drop k xs) = [xs ! k]"
  using assms by (simp add: take_Suc_conv_app_nth)

lemma take_drop_2:
  assumes "k + 1 < length xs"
  shows "take 2 (drop k xs) = [xs ! k, xs ! (k + 1)]"
proof -
  have "take (Suc (Suc 0)) (drop k xs) = [xs ! k, xs ! (k + 1)]"
    using assms by (simp add: take_Suc_conv_app_nth)
  then show ?thesis by (simp add: numeral_2_eq_2)
qed

text \<open>
  Stuffing and then destuffing. A payload whose length is not a multiple of 3 comes back
  as it was. A payload whose length is a multiple of 3 comes back without its last three
  bytes, which the decoder leaves in the \<open>DATAEND3\<close> packet.
\<close>

lemma roundtrip_not_multiple_of_3:
  assumes len: "length payload = unat count"
    and m3: "unat count mod 3 \<noteq> 0"
    and small: "unat count \<le> 2 ^ 30"
    and alloc: "length buf = unat (compute_stuffed_size count)"
    and room: "unat count \<le> uw"
  shows "\<exists>frame r.
           stuff_buffer buf (compute_stuffed_size count) payload count = Some frame \<and>
           length frame = unat (compute_stuffed_size count) \<and>
           parse_buffered_data
             \<lparr>data = frame, bufsize = compute_stuffed_size count,
              filled = compute_stuffed_size count, copied = 0\<rparr> uw count = Some (Inr r) \<and>
           ret r = int (unat count) \<and> delivered r = payload"
proof -
  define n where "n = unat count div 3"
  define stuffed where "stuffed = compute_stuffed_size count"
  have small': "unat count \<le> 2 ^ 62" using small by simp
  have a: "unat stuffed \<le> length buf" "length buf < 2 ^ 64"
    using alloc unsigned_less [of stuffed, where 'a = nat] by (simp_all add: stuffed_def)
  consider "unat count mod 3 = 1" | "unat count mod 3 = 2"
    using m3 by linarith
  then show ?thesis
  proof cases
    case 1
    have n3: "unat count = 3 * n + 1" using 1 unfolding n_def by presburger
    from stuff_buffer_rem1 [OF len 1 small' a [unfolded stuffed_def]]
    obtain frame where f: "stuff_buffer buf stuffed payload count = Some frame"
      "length frame = length buf" "unat stuffed = 4 * n + 4"
      "packets_at frame 0 payload 0 n" "frame ! (4 * n) = MK2_SYSEX_DATAEND1"
      "frame ! (4 * n + 1) = payload ! (3 * n)"
      unfolding n_def stuffed_def by blast
    have lf: "length frame = 4 * n + 4" using f(2,3) alloc by (simp add: stuffed_def)
    have b: "batch_size_of (frame ! (4 * n)) = Some 1"
      using f(5) by (simp add: batch_size_of_codes)
    have sz: "4 * n + 4 < 2 ^ 31" "unat count < 2 ^ 31" "0 < unat count"
      using n3 small by simp_all
    from parse_frame [OF f(4) lf b _ _ _ room f(3) sz, of 1] n3 len
    obtain r where r: "parse_buffered_data
        \<lparr>data = frame, bufsize = stuffed, filled = stuffed, copied = 0\<rparr> uw count = Some (Inr r)"
      "ret r = int (3 * n + 1)"
      "delivered r = take (3 * n) payload @ take 1 (drop (4 * n + 1) frame)"
      by auto
    have "take 1 (drop (4 * n + 1) frame) = [payload ! (3 * n)]"
      using take_drop_1 [of "4 * n + 1" frame] lf f(6) by simp
    moreover have "take (Suc (3 * n)) payload = take (3 * n) payload @ [payload ! (3 * n)]"
      using len n3 by (intro take_Suc_conv_app_nth) simp
    ultimately have "delivered r = take (Suc (3 * n)) payload"
      using r(3) by simp
    then have "delivered r = payload"
      using len n3 by simp
    then show ?thesis
      using f(1) f(2) alloc r(1,2) n3 unfolding stuffed_def by auto
  next
    case 2
    have n3: "unat count = 3 * n + 2" using 2 unfolding n_def by presburger
    from stuff_buffer_rem2 [OF len 2 small' a [unfolded stuffed_def]]
    obtain frame where f: "stuff_buffer buf stuffed payload count = Some frame"
      "length frame = length buf" "unat stuffed = 4 * n + 4"
      "packets_at frame 0 payload 0 n" "frame ! (4 * n) = MK2_SYSEX_DATAEND2"
      "frame ! (4 * n + 1) = payload ! (3 * n)"
      "frame ! (4 * n + 2) = payload ! (3 * n + 1)"
      unfolding n_def stuffed_def by blast
    have lf: "length frame = 4 * n + 4" using f(2,3) alloc by (simp add: stuffed_def)
    have b: "batch_size_of (frame ! (4 * n)) = Some 2"
      using f(5) by (simp add: batch_size_of_codes)
    have sz: "4 * n + 4 < 2 ^ 31" "unat count < 2 ^ 31" "0 < unat count"
      using n3 small by simp_all
    from parse_frame [OF f(4) lf b _ _ _ room f(3) sz, of 2] n3 len
    obtain r where r: "parse_buffered_data
        \<lparr>data = frame, bufsize = stuffed, filled = stuffed, copied = 0\<rparr> uw count = Some (Inr r)"
      "ret r = int (3 * n + 2)"
      "delivered r = take (3 * n) payload @ take 2 (drop (4 * n + 1) frame)"
      by auto
    have "take 2 (drop (4 * n + 1) frame) = [payload ! (3 * n), payload ! (3 * n + 1)]"
      using take_drop_2 [of "4 * n + 1" frame] lf f(6,7) by (simp add: add.commute)
    moreover have "take (Suc (Suc (3 * n))) payload =
        take (3 * n) payload @ [payload ! (3 * n), payload ! (3 * n + 1)]"
    proof -
      have "take (Suc (Suc (3 * n))) payload =
          take (Suc (3 * n)) payload @ [payload ! Suc (3 * n)]"
        using len n3 by (intro take_Suc_conv_app_nth) simp
      also have "take (Suc (3 * n)) payload = take (3 * n) payload @ [payload ! (3 * n)]"
        using len n3 by (intro take_Suc_conv_app_nth) simp
      finally show ?thesis by simp
    qed
    ultimately have "delivered r = take (Suc (Suc (3 * n))) payload"
      using r(3) by simp
    then have "delivered r = payload"
      using len n3 by simp
    then show ?thesis
      using f(1) f(2) alloc r(1,2) n3 unfolding stuffed_def by auto
  qed
qed

lemma roundtrip_multiple_of_3:
  assumes len: "length payload = unat count"
    and pos: "0 < unat count"
    and m3: "unat count mod 3 = 0"
    and small: "unat count \<le> 2 ^ 30"
    and alloc: "length buf = unat (compute_stuffed_size count)"
    and room: "unat count \<le> uw"
  shows "\<exists>frame r.
           stuff_buffer buf (compute_stuffed_size count) payload count = Some frame \<and>
           length frame = unat (compute_stuffed_size count) \<and>
           parse_buffered_data
             \<lparr>data = frame, bufsize = compute_stuffed_size count,
              filled = compute_stuffed_size count, copied = 0\<rparr> uw count = Some (Inr r) \<and>
           ret r = int (unat count) - 3 \<and> delivered r = take (unat count - 3) payload"
proof -
  define n where "n = unat count div 3 - 1"
  define stuffed where "stuffed = compute_stuffed_size count"
  have small': "unat count \<le> 2 ^ 62" using small by simp
  have a: "unat stuffed \<le> length buf" "length buf < 2 ^ 64"
    using alloc unsigned_less [of stuffed, where 'a = nat] by (simp_all add: stuffed_def)
  have n3: "unat count = 3 * n + 3" "unat count div 3 = n + 1"
    using m3 pos unfolding n_def by presburger+
  from stuff_buffer_rem0 [OF len pos m3 small' a [unfolded stuffed_def]]
  obtain frame where f: "stuff_buffer buf stuffed payload count = Some frame"
      "length frame = length buf" "unat stuffed = 4 * (n + 1)"
      "\<forall>j < n + 1.
              frame ! (4 * j) =
                (if j + 1 = n + 1 then MK2_SYSEX_DATAEND3 else MK2_SYSEX_MOREDATA) \<and>
              frame ! (4 * j + 1) = payload ! (3 * j) \<and>
              frame ! (4 * j + 2) = payload ! (3 * j + 1) \<and>
              frame ! (4 * j + 3) = payload ! (3 * j + 2)"
    unfolding stuffed_def n3(2) by blast
  have lf: "length frame = 4 * n + 4" using f(2,3) alloc by (simp add: stuffed_def)
  have pk: "packets_at frame 0 payload 0 n"
    unfolding packets_at_def
  proof (intro allI impI)
    fix j assume "j < n"
    then have "j < n + 1" "j + 1 \<noteq> n + 1" by simp_all
    with f(4) show "frame ! (0 + 4 * j) = MK2_SYSEX_MOREDATA \<and>
             frame ! (0 + 4 * j + 1) = payload ! (0 + 3 * j) \<and>
             frame ! (0 + 4 * j + 2) = payload ! (0 + 3 * j + 1) \<and>
             frame ! (0 + 4 * j + 3) = payload ! (0 + 3 * j + 2)"
      by simp
  qed
  have "frame ! (4 * n) = MK2_SYSEX_DATAEND3"
    using f(4) [rule_format, of n] by simp
  then have b: "batch_size_of (frame ! (4 * n)) = Some 0"
    by (simp add: batch_size_of_codes)
  have sz: "unat stuffed = 4 * n + 4" "4 * n + 4 < 2 ^ 31" "unat count < 2 ^ 31" "0 < unat count"
    using n3 small f(3) by simp_all
  from parse_frame [OF pk lf b _ _ _ room sz, of 3] n3 len
  obtain r where r: "parse_buffered_data
        \<lparr>data = frame, bufsize = stuffed, filled = stuffed, copied = 0\<rparr> uw count = Some (Inr r)"
      "ret r = int (3 * n)"
      "delivered r = take (3 * n) payload"
    by auto
  show ?thesis
    using f(1) f(2) alloc r n3 unfolding stuffed_def by auto
qed

section \<open>Two defects of the decoder\<close>

text \<open>
  Claim C8 on the code. The read buffer holds the frame of the payload 1 2 3 4 5. One
  read that asks for everything delivers 1 2 3 4 5. Two reads that ask for 3 bytes each
  deliver 1 2 3 and then 4 5 0: the second one reads the status byte of its packet at
  offset 0 instead of offset \<open>copied\<close>, takes the packet for a full one and delivers its
  padding byte.
\<close>

theorem two_reads_differ_from_one:
  "stuff_buffer [0, 0, 0, 0, 0, 0, 0, 0] 8 [1, 2, 3, 4, 5] 5 = Some [4, 1, 2, 3, 6, 4, 5, 0] \<and>
   (\<exists>d. mk2_read (dev_with_frame [4, 1, 2, 3, 6, 4, 5, 0]) read_env_ok [] 8 8 =
      Returns (5, d, [1, 2, 3, 4, 5])) \<and>
   (\<exists>d1 d2.
      mk2_read (dev_with_frame [4, 1, 2, 3, 6, 4, 5, 0]) read_env_ok [] 3 3 =
        Returns (3, d1, [1, 2, 3]) \<and>
      copied (buffer (read_endp d1)) = 4 \<and>
      mk2_read d1 read_env_ok [] 3 3 = Returns (3, d2, [4, 5, 0]))"
  by (simp add: dev_with_frame_8 dev_eval codec_eval read_env_ok_def)

text \<open>
  Claim C1 on the code. The payload 1 2 3 is stuffed into the single packet 7 1 2 3, of
  \<open>compute_stuffed_size 3 = 4\<close> bytes. Decoding that frame with capacity 3 returns 0 and
  delivers nothing: the decoder gives a \<open>DATAEND3\<close> packet no payload bytes.
\<close>

theorem roundtrip_fails_for_multiple_of_3:
  "compute_stuffed_size 3 = 4 \<and>
   stuff_buffer [0, 0, 0, 0] (compute_stuffed_size 3) [1, 2, 3] 3 = Some [7, 1, 2, 3] \<and>
   parse_buffered_data
     \<lparr>data = [7, 1, 2, 3], bufsize = 4, filled = compute_stuffed_size 3, copied = 0\<rparr> 3 3 =
     Some (Inr \<lparr>ret = 0,
       buffer_after = \<lparr>data = [7, 1, 2, 3], bufsize = 4, filled = 4, copied = 4\<rparr>,
       delivered = [], reads = [StatusRead 0]\<rparr>)"
  by (simp add: codec_eval compute_stuffed_size_def)

end
